theory Spec2Isabelle
  imports Main
begin

section \<open>Speaker-attributed transcript: fusion and role assignment\<close>

text \<open>
  The development embeds the computational core of \<^verbatim>\<open>process_audio_endpoint\<close>
  (\<^verbatim>\<open>src/flask_app.py\<close>, lines 68 to 113): the loop that attaches a dominant
  speaker to every transcription segment, and the loop that derives the roles
  \<^verbatim>\<open>Teacher\<close>, \<^verbatim>\<open>Student N\<close> and \<^verbatim>\<open>Unknown\<close>.

  The request checks (status 400 and 500), the exception handler and the temporary
  file around these lines are not embedded; on inputs of the types below the
  embedded lines raise no exception.

  Conventions of the embedding.
  \<^item> Time stamps are Python floats, that is IEEE 754 binary64 numbers, and the
    endpoint subtracts, adds and compares them. They are modelled as such: every
    sum and difference is rounded to 53 significant bits, ties to even, and
    comparisons are the ones of Python. Nothing is assumed about their sign or
    order, so a segment or a turn with \<open>end < start\<close> is an input of the model.
  \<^item> Speaker labels and role labels are strings. The transcribed text is a list of
    Unicode code points, because \<^verbatim>\<open>str.strip\<close> is defined on code points.
  \<^item> A Python \<^verbatim>\<open>dict\<close> is an association list in insertion order with distinct
    keys: assigning to a present key keeps its position, assigning to an absent
    key appends it. Iteration order decides which key \<^verbatim>\<open>max\<close> returns among
    equal values, so the order is part of the model.
\<close>

subsection \<open>Binary64 floating point\<close>

text \<open>
  Every finite binary64 number is an integer multiple of the smallest subnormal,
  2 to the power -1074. \<open>Finite k\<close> stands for \<open>k\<close> times that unit; the binary64
  numbers among them are those whose \<open>k\<close> has at most 53 significant bits and lies
  below 2 to the power 2098 in magnitude, and the results below hold for every \<open>k\<close>. The two
  zeros of the format compare equal and are one value here. \<open>PInf\<close>, \<open>NInf\<close> and
  \<open>NaN\<close> are the infinities and not-a-number.
\<close>

datatype double = Finite int | PInf | NInf | NaN

text \<open>The integer literal \<^verbatim>\<open>0\<close> of the source, where it meets a float.\<close>

abbreviation dzero :: double where
  "dzero \<equiv> Finite 0"

text \<open>\<^verbatim>\<open>x < y\<close> on floats: false as soon as one side is not a number.\<close>

fun dlt :: "double \<Rightarrow> double \<Rightarrow> bool" where
  "dlt (Finite a) (Finite b) = (a < b)"
| "dlt (Finite a) PInf = True"
| "dlt NInf (Finite b) = True"
| "dlt NInf PInf = True"
| "dlt x y = False"

text \<open>
  Rounding an exact result to 53 significant bits, to nearest and ties to even.
  \<open>excess_bits a\<close> is the number of low bits of \<open>a \<ge> 0\<close> that do not fit.
\<close>

function excess_bits :: "int \<Rightarrow> nat" where
  "excess_bits a = (if a < 2 ^ 53 then 0 else Suc (excess_bits (a div 2)))"
  by pat_completeness auto
termination
  by (relation "measure nat") auto

declare excess_bits.simps [simp del]

definition round53 :: "int \<Rightarrow> int" where
  "round53 k =
     (let a = \<bar>k\<bar>; sh = excess_bits a; q = a div 2 ^ sh; r = a mod 2 ^ sh
      in if sh = 0 then k
         else sgn k *
           ((if 2 ^ sh < 2 * r \<or> (2 * r = 2 ^ sh \<and> odd q) then q + 1 else q) * 2 ^ sh))"

text \<open>The rounded result overflows to an infinity from 2 to the power 1024 on.\<close>

definition of_exact :: "int \<Rightarrow> double" where
  "of_exact k =
     (let r = round53 k
      in if 2 ^ 2098 \<le> r then PInf else if r \<le> - (2 ^ 2098) then NInf else Finite r)"

text \<open>\<^verbatim>\<open>x + y\<close>, \<^verbatim>\<open>-x\<close> and \<^verbatim>\<open>x - y\<close> on floats.\<close>

fun fadd :: "double \<Rightarrow> double \<Rightarrow> double" where
  "fadd (Finite a) (Finite b) = of_exact (a + b)"
| "fadd NaN y = NaN"
| "fadd x NaN = NaN"
| "fadd PInf NInf = NaN"
| "fadd NInf PInf = NaN"
| "fadd PInf y = PInf"
| "fadd x PInf = PInf"
| "fadd NInf y = NInf"
| "fadd x NInf = NInf"

fun fneg :: "double \<Rightarrow> double" where
  "fneg (Finite a) = Finite (- a)"
| "fneg PInf = NInf"
| "fneg NInf = PInf"
| "fneg NaN = NaN"

definition fsub :: "double \<Rightarrow> double \<Rightarrow> double" where
  "fsub x y = fadd x (fneg y)"

text \<open>
  Writing floats down: \<open>dbl m e\<close> is \<open>m * 2 ^ e\<close> for \<open>e \<ge> -1074\<close>, and \<open>sec n\<close> is
  the integer \<open>n\<close>. The float nearest to 0.01, for instance, is
  \<open>dbl 5764607523034235 (-59)\<close>.
\<close>

definition dbl :: "int \<Rightarrow> int \<Rightarrow> double" where
  "dbl m e = Finite (m * 2 ^ nat (e + 1074))"

abbreviation sec :: "int \<Rightarrow> double" where
  "sec n \<equiv> dbl n 0"

subsection \<open>Python built-ins used by the endpoint\<close>

text \<open>
  \<^verbatim>\<open>max(a, b)\<close> and \<^verbatim>\<open>min(a, b)\<close> on two numbers: the second argument is returned
  only when it is strictly greater, respectively strictly less, than the first.
\<close>

definition py_max :: "double \<Rightarrow> double \<Rightarrow> double" where
  "py_max a b = (if dlt a b then b else a)"

definition py_min :: "double \<Rightarrow> double \<Rightarrow> double" where
  "py_min a b = (if dlt b a then b else a)"

type_synonym ('k, 'v) dict = "('k \<times> 'v) list"

text \<open>\<^verbatim>\<open>d.get(k, default)\<close>\<close>

definition dict_get :: "('k, 'v) dict \<Rightarrow> 'k \<Rightarrow> 'v \<Rightarrow> 'v" where
  "dict_get d k dflt = (case map_of d k of None \<Rightarrow> dflt | Some v \<Rightarrow> v)"

text \<open>\<^verbatim>\<open>d[k] = v\<close>\<close>

fun dict_set :: "('k, 'v) dict \<Rightarrow> 'k \<Rightarrow> 'v \<Rightarrow> ('k, 'v) dict" where
  "dict_set [] k v = [(k, v)]"
| "dict_set ((k', v') # d) k v =
     (if k' = k then (k', v) # d else (k', v') # dict_set d k v)"

text \<open>
  \<^verbatim>\<open>max(d, key=d.get)\<close> on a non-empty dict: the keys are visited in insertion
  order, the first one is the running maximum, and a later key replaces it only
  when its value is strictly greater. The first argument is the running maximum.
\<close>

fun max_from :: "'k \<times> double \<Rightarrow> ('k, double) dict \<Rightarrow> 'k" where
  "max_from (k, v) [] = k"
| "max_from (k, v) ((k', v') # d) =
     (if dlt v v' then max_from (k', v') d else max_from (k, v) d)"

text \<open>
  \<^verbatim>\<open>max(d, key=d.get) if d else "UNKNOWN"\<close>: an empty dict is falsy, so \<^verbatim>\<open>max\<close>
  is only ever called on a non-empty one and its \<^verbatim>\<open>ValueError\<close> cannot occur.
\<close>

definition max_key_or_unknown :: "(string, double) dict \<Rightarrow> string" where
  "max_key_or_unknown d = (case d of [] \<Rightarrow> ''UNKNOWN'' | p # ps \<Rightarrow> max_from p ps)"

text \<open>
  \<^verbatim>\<open>str.isspace\<close> on one code point, as CPython's \<^verbatim>\<open>_PyUnicode_IsWhitespace\<close>
  lists them, and \<^verbatim>\<open>s.strip()\<close>, which removes the longest prefix and the longest
  suffix of such code points.
\<close>

definition py_isspace :: "nat \<Rightarrow> bool" where
  "py_isspace c \<longleftrightarrow>
     (9 \<le> c \<and> c \<le> 13) \<or> (28 \<le> c \<and> c \<le> 32) \<or> c = 133 \<or> c = 160 \<or> c = 5760 \<or>
     (8192 \<le> c \<and> c \<le> 8202) \<or> c = 8232 \<or> c = 8233 \<or> c = 8239 \<or> c = 8287 \<or>
     c = 12288"

definition strip :: "nat list \<Rightarrow> nat list" where
  "strip s = rev (dropWhile py_isspace (rev (dropWhile py_isspace s)))"

text \<open>\<^verbatim>\<open>str(n)\<close> for an integer, as the f-string \<^verbatim>\<open>f"Student {student_counter}"\<close> formats it.\<close>

definition digit_char :: "nat \<Rightarrow> char" where
  "digit_char n = ''0123456789'' ! n"

function digits :: "nat \<Rightarrow> string" where
  "digits n = (if n < 10 then [digit_char n] else digits (n div 10) @ [digit_char (n mod 10)])"
  by pat_completeness auto
termination
  by (relation "measure id") auto

declare digits.simps [simp del]

definition py_str :: "int \<Rightarrow> string" where
  "py_str i = (if i < 0 then CHR ''-'' # digits (nat (- i)) else digits (nat i))"

subsection \<open>Data\<close>

text \<open>One item of \<^verbatim>\<open>diarization.itertracks(yield_label=True)\<close>: a turn and its label.\<close>

record turn =
  turn_start :: double
  turn_end :: double
  turn_speaker :: string

text \<open>One element of \<^verbatim>\<open>transcription["segments"]\<close>.\<close>

record segment =
  seg_start :: double
  seg_end :: double
  seg_text :: "nat list"

text \<open>
  One element of \<^verbatim>\<open>final_transcript\<close>. The key \<^verbatim>\<open>speaker_role\<close> is absent after
  fusion and set by role assignment, hence optional.
\<close>

record utterance =
  utt_start :: double
  utt_end :: double
  utt_text :: "nat list"
  speaker :: string
  speaker_role :: "string option"

subsection \<open>Step 3: combining diarization and transcription\<close>

definition overlap_duration :: "double \<Rightarrow> double \<Rightarrow> turn \<Rightarrow> double" where
  "overlap_duration segment_start segment_end t =
     (let overlap_start = py_max segment_start (turn_start t);
          overlap_end = py_min segment_end (turn_end t)
      in py_max dzero (fsub overlap_end overlap_start))"

text \<open>The inner loop over the turns; the first argument after the span is \<^verbatim>\<open>speaker_times\<close>.\<close>

fun speaker_times_loop ::
  "double \<Rightarrow> double \<Rightarrow> (string, double) dict \<Rightarrow> turn list \<Rightarrow> (string, double) dict" where
  "speaker_times_loop segment_start segment_end speaker_times [] = speaker_times"
| "speaker_times_loop segment_start segment_end speaker_times (t # ts) =
     (if dlt dzero (overlap_duration segment_start segment_end t)
      then speaker_times_loop segment_start segment_end
             (dict_set speaker_times (turn_speaker t)
                (fadd (dict_get speaker_times (turn_speaker t) dzero)
                   (overlap_duration segment_start segment_end t))) ts
      else speaker_times_loop segment_start segment_end speaker_times ts)"

definition speaker_times :: "double \<Rightarrow> double \<Rightarrow> turn list \<Rightarrow> (string, double) dict" where
  "speaker_times segment_start segment_end diarization =
     speaker_times_loop segment_start segment_end [] diarization"

definition dominant_speaker :: "(string, double) dict \<Rightarrow> string" where
  "dominant_speaker d = max_key_or_unknown d"

text \<open>The body of the outer loop: the dict appended for one segment.\<close>

definition fuse_segment :: "turn list \<Rightarrow> segment \<Rightarrow> utterance" where
  "fuse_segment diarization sg =
     \<lparr> utt_start = seg_start sg,
       utt_end = seg_end sg,
       utt_text = strip (seg_text sg),
       speaker = dominant_speaker (speaker_times (seg_start sg) (seg_end sg) diarization),
       speaker_role = None \<rparr>"

text \<open>The outer loop; the second argument is \<^verbatim>\<open>final_transcript\<close> so far.\<close>

fun fuse_loop :: "turn list \<Rightarrow> utterance list \<Rightarrow> segment list \<Rightarrow> utterance list" where
  "fuse_loop diarization final_transcript [] = final_transcript"
| "fuse_loop diarization final_transcript (sg # sgs) =
     fuse_loop diarization (final_transcript @ [fuse_segment diarization sg]) sgs"

definition fuse :: "segment list \<Rightarrow> turn list \<Rightarrow> utterance list" where
  "fuse segments diarization = fuse_loop diarization [] segments"

subsection \<open>Step 4: identifying the teacher and assigning roles\<close>

fun talk_time_loop :: "(string, double) dict \<Rightarrow> utterance list \<Rightarrow> (string, double) dict" where
  "talk_time_loop speaker_talk_time [] = speaker_talk_time"
| "talk_time_loop speaker_talk_time (seg # segs) =
     talk_time_loop
       (dict_set speaker_talk_time (speaker seg)
          (fadd (dict_get speaker_talk_time (speaker seg) dzero)
             (fsub (utt_end seg) (utt_start seg)))) segs"

definition speaker_talk_time :: "utterance list \<Rightarrow> (string, double) dict" where
  "speaker_talk_time final_transcript = talk_time_loop [] final_transcript"

definition teacher_label :: "utterance list \<Rightarrow> string" where
  "teacher_label final_transcript = max_key_or_unknown (speaker_talk_time final_transcript)"

text \<open>
  The labelling loop. The state is \<^verbatim>\<open>student_counter\<close> and \<^verbatim>\<open>speaker_map\<close>; each
  element is returned with its key \<^verbatim>\<open>speaker_role\<close> assigned, whatever was there.
\<close>

fun roles_loop ::
  "string \<Rightarrow> int \<Rightarrow> (string, string) dict \<Rightarrow> utterance list \<Rightarrow> utterance list" where
  "roles_loop teacher student_counter speaker_map [] = []"
| "roles_loop teacher student_counter speaker_map (seg # segs) =
     (if speaker seg = teacher then
        seg\<lparr>speaker_role := Some ''Teacher''\<rparr>
          # roles_loop teacher student_counter speaker_map segs
      else if speaker seg \<noteq> ''UNKNOWN'' then
        (case map_of speaker_map (speaker seg) of
           None \<Rightarrow>
             seg\<lparr>speaker_role := Some (''Student '' @ py_str student_counter)\<rparr>
               # roles_loop teacher (student_counter + 1)
                   (dict_set speaker_map (speaker seg) (''Student '' @ py_str student_counter))
                   segs
         | Some lbl \<Rightarrow>
             seg\<lparr>speaker_role := Some lbl\<rparr>
               # roles_loop teacher student_counter speaker_map segs)
      else
        seg\<lparr>speaker_role := Some ''Unknown''\<rparr>
          # roles_loop teacher student_counter speaker_map segs)"

definition assign_roles :: "utterance list \<Rightarrow> utterance list" where
  "assign_roles final_transcript =
     roles_loop (teacher_label final_transcript) 1 [] final_transcript"

text \<open>Steps 3 and 4 in sequence: the list the endpoint serialises.\<close>

definition process_audio :: "turn list \<Rightarrow> segment list \<Rightarrow> utterance list" where
  "process_audio diarization segments = assign_roles (fuse segments diarization)"

subsection \<open>Reference notions the claims are stated with\<close>

text \<open>
  These definitions are not part of the endpoint. They say, in the words of the
  specification, what the loops are expected to compute: the aggregate talk time of
  a speaker, the summed positive overlap of a speaker with a span, and the speakers
  of a list in order of first appearance. A sum is the float sum, taken from 0 in
  the order of the list, as a running total in a program is.
\<close>

definition float_sum :: "double list \<Rightarrow> double" where
  "float_sum xs = foldl fadd dzero xs"

definition total_talk_time :: "utterance list \<Rightarrow> string \<Rightarrow> double" where
  "total_talk_time us sp =
     float_sum (map (\<lambda>u. fsub (utt_end u) (utt_start u)) (filter (\<lambda>u. speaker u = sp) us))"

definition total_overlap :: "double \<Rightarrow> double \<Rightarrow> turn list \<Rightarrow> string \<Rightarrow> double" where
  "total_overlap s e turns sp =
     float_sum (map (overlap_duration s e)
       (filter (\<lambda>t. turn_speaker t = sp \<and> dlt dzero (overlap_duration s e t)) turns))"

text \<open>Walking a list from the left, an element not seen so far is appended.\<close>

abbreviation seen_step :: "'a list \<Rightarrow> 'a \<Rightarrow> 'a list" where
  "seen_step \<equiv> (\<lambda>seen x. if x \<in> set seen then seen else seen @ [x])"

definition first_seen :: "'a list \<Rightarrow> 'a list" where
  "first_seen xs = foldl seen_step [] xs"

text \<open>The speakers that are neither the teacher nor unmatched, in order of first appearance.\<close>

definition student_order :: "utterance list \<Rightarrow> string list" where
  "student_order us =
     first_seen (filter (\<lambda>s. s \<noteq> teacher_label us \<and> s \<noteq> ''UNKNOWN'') (map speaker us))"

text \<open>
  The invariant of the labelling loop: \<open>speaker_map\<close> holds the students seen so far,
  in order, the \<open>n\<close>-th of them (from 0) under the label \<open>Student (n + 1)\<close>, and
  \<open>student_counter\<close> is the next number.
\<close>

definition student_state :: "int \<Rightarrow> (string, string) dict \<Rightarrow> string list \<Rightarrow> bool" where
  "student_state c m seen \<longleftrightarrow>
     distinct seen \<and> c = int (length seen) + 1 \<and>
     m = zip seen (map (\<lambda>n. ''Student '' @ py_str (int n + 1)) [0..<length seen])"

subsection \<open>Example inputs\<close>

text \<open>
  Four turns and three segments. The first segment \<open>[2, 7]\<close> meets two turns of \<open>A\<close>
  (2 and 2 seconds) and one of \<open>B\<close> (3 seconds); the last segment meets no turn.
  Texts are code points: 32 is a space, 9 a tab, 10 a line feed.
\<close>

abbreviation example_turns :: "turn list" where
  "example_turns \<equiv>
    [\<lparr>turn_start = sec 0, turn_end = sec 4, turn_speaker = ''A''\<rparr>,
     \<lparr>turn_start = sec 4, turn_end = sec 9, turn_speaker = ''B''\<rparr>,
     \<lparr>turn_start = sec 5, turn_end = sec 8, turn_speaker = ''A''\<rparr>,
     \<lparr>turn_start = sec 10, turn_end = sec 12, turn_speaker = ''C''\<rparr>]"

abbreviation example_segments :: "segment list" where
  "example_segments \<equiv>
    [\<lparr>seg_start = sec 2, seg_end = sec 7, seg_text = [32, 104, 105, 32, 10]\<rparr>,
     \<lparr>seg_start = sec 7, seg_end = sec 9, seg_text = [9, 32]\<rparr>,
     \<lparr>seg_start = sec 9, seg_end = sec 10, seg_text = [111, 32, 107]\<rparr>]"

text \<open>
  A fused transcript of five utterances: \<open>A\<close> speaks once for five seconds, \<open>B\<close>
  twice for three seconds in all, \<open>C\<close> once, and one segment is unmatched.
\<close>

abbreviation example_transcript :: "utterance list" where
  "example_transcript \<equiv>
    [\<lparr>utt_start = sec 0, utt_end = sec 5, utt_text = [104, 105], speaker = ''A'', speaker_role = None\<rparr>,
     \<lparr>utt_start = sec 5, utt_end = sec 7, utt_text = [], speaker = ''B'', speaker_role = None\<rparr>,
     \<lparr>utt_start = sec 7, utt_end = sec 8, utt_text = [], speaker = ''UNKNOWN'', speaker_role = None\<rparr>,
     \<lparr>utt_start = sec 8, utt_end = sec 9, utt_text = [111, 107], speaker = ''C'', speaker_role = None\<rparr>,
     \<lparr>utt_start = sec 9, utt_end = sec 10, utt_text = [], speaker = ''B'', speaker_role = None\<rparr>]"

text \<open>A transcript in which the unmatched segment is the longest.\<close>

abbreviation unmatched_transcript :: "utterance list" where
  "unmatched_transcript \<equiv>
    [\<lparr>utt_start = sec 0, utt_end = sec 2, utt_text = [], speaker = ''A'', speaker_role = None\<rparr>,
     \<lparr>utt_start = sec 2, utt_end = sec 10, utt_text = [], speaker = ''UNKNOWN'', speaker_role = None\<rparr>,
     \<lparr>utt_start = sec 10, utt_end = sec 11, utt_text = [], speaker = ''B'', speaker_role = None\<rparr>]"

text \<open>Two segments fused against no turn at all.\<close>

abbreviation silent_segments :: "segment list" where
  "silent_segments \<equiv>
    [\<lparr>seg_start = sec 0, seg_end = sec 5, seg_text = [104, 105]\<rparr>,
     \<lparr>seg_start = sec 5, seg_end = sec 6, seg_text = []\<rparr>]"

abbreviation all_unknown_transcript :: "utterance list" where
  "all_unknown_transcript \<equiv>
    [\<lparr>utt_start = sec 0, utt_end = sec 5, utt_text = [104, 105], speaker = ''UNKNOWN'', speaker_role = None\<rparr>,
     \<lparr>utt_start = sec 5, utt_end = sec 6, utt_text = [], speaker = ''UNKNOWN'', speaker_role = None\<rparr>]"

text \<open>
  Inputs on which rounding decides. The floats nearest to 0.01, 0.03, 0.04 and
  0.06, then to 0.1, 0.2, 0.9 and 1.8, and to 0.18, 0.86 and 1.72.
\<close>

abbreviation "d001 \<equiv> dbl 5764607523034235 (- 59)"
abbreviation "d003 \<equiv> dbl 1080863910568919 (- 55)"
abbreviation "d004 \<equiv> dbl 5764607523034235 (- 57)"
abbreviation "d006 \<equiv> dbl 1080863910568919 (- 54)"
abbreviation "d01 \<equiv> dbl 3602879701896397 (- 55)"
abbreviation "d02 \<equiv> dbl 3602879701896397 (- 54)"
abbreviation "d09 \<equiv> dbl 8106479329266893 (- 53)"
abbreviation "d18 \<equiv> dbl 8106479329266893 (- 52)"
abbreviation "d018 \<equiv> dbl 3242591731706757 (- 54)"
abbreviation "d086 \<equiv> dbl 7746191359077253 (- 53)"
abbreviation "d172 \<equiv> dbl 7746191359077253 (- 52)"

text \<open>
  \<open>A\<close> speaks 0 to 0.01 and 0.04 to 0.06, the other speaker 0.01 to 0.04. In exact
  arithmetic the other speaker is ahead; in floats both totals are 0.03.
\<close>

abbreviation tie_transcript :: "string \<Rightarrow> utterance list" where
  "tie_transcript other \<equiv>
    [\<lparr>utt_start = sec 0, utt_end = d001, utt_text = [], speaker = ''A'', speaker_role = None\<rparr>,
     \<lparr>utt_start = d001, utt_end = d004, utt_text = [], speaker = other, speaker_role = None\<rparr>,
     \<lparr>utt_start = d004, utt_end = d006, utt_text = [], speaker = ''A'', speaker_role = None\<rparr>]"

text \<open>
  \<open>B\<close> speaks 0 to 0.18 and 0.18 to 0.86, \<open>A\<close> 0.86 to 1.72. In exact arithmetic the
  totals are equal; in floats \<open>B\<close> has 0.8599999999999999 and \<open>A\<close> 0.86.
\<close>

abbreviation rounded_transcript :: "utterance list" where
  "rounded_transcript \<equiv>
    [\<lparr>utt_start = sec 0, utt_end = d018, utt_text = [], speaker = ''B'', speaker_role = None\<rparr>,
     \<lparr>utt_start = d018, utt_end = d086, utt_text = [], speaker = ''B'', speaker_role = None\<rparr>,
     \<lparr>utt_start = d086, utt_end = d172, utt_text = [], speaker = ''A'', speaker_role = None\<rparr>]"

text \<open>
  \<open>B\<close> speaks from 0 to 9007199254740992 (2 to the power 53), \<open>A\<close> as long and
  one second more. The float sum of \<open>A\<close> rounds the odd total down, so both totals
  are equal.
\<close>

abbreviation boundary_transcript :: "utterance list" where
  "boundary_transcript \<equiv>
    [\<lparr>utt_start = sec 0, utt_end = sec 9007199254740992, utt_text = [], speaker = ''B'',
        speaker_role = None\<rparr>,
     \<lparr>utt_start = sec 0, utt_end = sec 9007199254740992, utt_text = [], speaker = ''A'',
        speaker_role = None\<rparr>,
     \<lparr>utt_start = sec 5, utt_end = sec 6, utt_text = [], speaker = ''A'', speaker_role = None\<rparr>]"

text \<open>
  Three turns of \<open>A\<close> from 0 to 0.9 and one of \<open>B\<close> from 0.9 to 1.8, against the
  segment from 0 to 1.8: in floats \<open>A\<close> adds up to 0.8999999999999999 only.
\<close>

abbreviation rounded_turns :: "turn list" where
  "rounded_turns \<equiv>
    [\<lparr>turn_start = sec 0, turn_end = d01, turn_speaker = ''A''\<rparr>,
     \<lparr>turn_start = d01, turn_end = d02, turn_speaker = ''A''\<rparr>,
     \<lparr>turn_start = d02, turn_end = d09, turn_speaker = ''A''\<rparr>,
     \<lparr>turn_start = d09, turn_end = d18, turn_speaker = ''B''\<rparr>]"

section \<open>Auxiliary facts\<close>

subsection \<open>Floats: order, rounding, evaluation\<close>

text \<open>The comparison is a strict partial order; not-a-number is comparable to nothing.\<close>

lemma dlt_irrefl: "\<not> dlt x x"
  by (cases x) simp_all

lemma dlt_trans: "dlt x y \<Longrightarrow> dlt y z \<Longrightarrow> dlt x z"
  by (cases x; cases y; cases z) simp_all

lemma dlt_asym: "dlt x y \<Longrightarrow> \<not> dlt y x"
  using dlt_trans dlt_irrefl by blast

text \<open>Rounding keeps the sign and commutes with scaling by a power of two.\<close>

lemma excess_bits_small: "a < 2 ^ 53 \<Longrightarrow> excess_bits a = 0"
  by (simp add: excess_bits.simps)

lemma excess_bits_large: "2 ^ 53 \<le> a \<Longrightarrow> excess_bits a = Suc (excess_bits (a div 2))"
  by (subst excess_bits.simps) simp

lemma excess_bits_lower: "excess_bits a = Suc n \<Longrightarrow> 2 ^ 53 * 2 ^ n \<le> a"
proof (induction a arbitrary: n rule: excess_bits.induct)
  case (1 a)
  from "1.prems" have large: "2 ^ 53 \<le> a"
    by (cases "a < 2 ^ 53") (simp_all add: excess_bits_small)
  with "1.prems" have n: "excess_bits (a div 2) = n" by (simp add: excess_bits_large)
  show ?case
  proof (cases n)
    case 0
    with large show ?thesis by simp
  next
    case (Suc m)
    with n "1.IH" large have "2 ^ 53 * 2 ^ m \<le> a div 2" by simp
    then have "2 ^ 53 * 2 ^ m * 2 \<le> a" by linarith
    with Suc show ?thesis by (simp add: mult.assoc)
  qed
qed

lemma excess_bits_scale_large:
  "2 ^ 53 \<le> a \<Longrightarrow> excess_bits (a * 2 ^ n) = excess_bits a + n"
proof (induction n)
  case 0
  then show ?case by simp
next
  case (Suc n)
  have "(1::int) \<le> 2 ^ Suc n" by (rule one_le_power) simp
  moreover have "(0::int) \<le> 2 ^ 53" by simp
  then have "0 \<le> a" using Suc.prems by (rule order_trans)
  ultimately have "a * 1 \<le> a * 2 ^ Suc n" by (intro mult_left_mono)
  then have "a \<le> a * 2 ^ Suc n" unfolding mult_1_right .
  with Suc.prems have "2 ^ 53 \<le> a * 2 ^ Suc n" by (rule order_trans)
  then have "excess_bits (a * 2 ^ Suc n) = Suc (excess_bits ((a * 2 ^ Suc n) div 2))"
    by (rule excess_bits_large)
  also have "(a * 2 ^ Suc n) div 2 = a * 2 ^ n" by simp
  finally show ?case using Suc by simp
qed

lemma excess_bits_scale_small:
  "a < 2 ^ 53 \<Longrightarrow> excess_bits (a * 2 ^ n) \<le> n"
proof (induction n)
  case 0
  then show ?case by (simp add: excess_bits_small)
next
  case (Suc n)
  show ?case
  proof (cases "a * 2 ^ Suc n < 2 ^ 53")
    case True
    then show ?thesis by (simp add: excess_bits_small)
  next
    case False
    then have "excess_bits (a * 2 ^ Suc n) = Suc (excess_bits ((a * 2 ^ Suc n) div 2))"
      by (intro excess_bits_large) simp
    also have "(a * 2 ^ Suc n) div 2 = a * 2 ^ n" by simp
    finally show ?thesis using Suc by simp
  qed
qed

lemma round53_pos: "0 < k \<Longrightarrow> 0 < round53 k"
proof -
  assume k: "0 < k"
  show ?thesis
  proof (cases "excess_bits \<bar>k\<bar>")
    case 0
    with k show ?thesis by (simp add: round53_def)
  next
    case (Suc n)
    let ?p = "(2::int) ^ Suc n"
    let ?q = "k div ?p"
    from Suc k have "2 ^ 53 * 2 ^ n \<le> k" using excess_bits_lower[of "\<bar>k\<bar>" n] by simp
    moreover have "?p \<le> 2 ^ 53 * 2 ^ n" by simp
    ultimately have "?p \<le> k" by linarith
    moreover have p: "0 < ?p" by simp
    ultimately have "?p div ?p \<le> ?q" by (intro zdiv_mono1) simp_all
    then have q: "1 \<le> ?q" using p by simp
    define q' where "q' = (if ?p < 2 * (k mod ?p) \<or> (2 * (k mod ?p) = ?p \<and> odd ?q) then ?q + 1 else ?q)"
    have "0 < q'" using q by (simp add: q'_def)
    then have "0 < q' * ?p" using p by (rule mult_pos_pos)
    moreover have "round53 k = q' * ?p"
      using k Suc by (simp add: round53_def Let_def q'_def)
    ultimately show ?thesis by simp
  qed
qed

lemma round53_zero: "round53 0 = 0"
  by (simp add: round53_def excess_bits_small)



lemma round53_exact: "\<bar>m\<bar> < 2 ^ 53 \<Longrightarrow> round53 (m * 2 ^ n) = m * 2 ^ n"
proof -
  assume m: "\<bar>m\<bar> < 2 ^ 53"
  let ?a = "\<bar>m * 2 ^ n\<bar>"
  have a: "?a = \<bar>m\<bar> * 2 ^ n" by (simp add: abs_mult)
  show ?thesis
  proof (cases "excess_bits ?a")
    case 0
    then show ?thesis by (simp add: round53_def)
  next
    case (Suc j)
    let ?sh = "Suc j"
    from excess_bits_scale_small[OF m, of n] Suc a have sh: "?sh \<le> n" by simp
    then obtain d where n: "n = d + ?sh" by (metis le_add_diff_inverse2)
    have split: "?a = (\<bar>m\<bar> * 2 ^ d) * 2 ^ ?sh"
      using a by (simp only: n power_add mult.assoc)
    have q: "?a div 2 ^ ?sh = \<bar>m\<bar> * 2 ^ d" unfolding split by simp
    have r: "?a mod 2 ^ ?sh = 0" unfolding split by simp
    have "round53 (m * 2 ^ n) = sgn (m * 2 ^ n) * ((\<bar>m\<bar> * 2 ^ d) * 2 ^ ?sh)"
      unfolding round53_def Let_def Suc q r by simp
    also have "\<dots> = sgn (m * 2 ^ n) * ?a" using split by simp
    also have "\<dots> = m * 2 ^ n" by (simp only: mult_sgn_abs)
    finally show ?thesis .
  qed
qed

lemma round53_scale_large:
  assumes m: "2 ^ 53 \<le> \<bar>m\<bar>"
  shows "round53 (m * 2 ^ n) = round53 m * 2 ^ n"
proof -
  let ?a = "\<bar>m\<bar>"
  let ?sh = "excess_bits ?a"
  have a: "\<bar>m * 2 ^ n\<bar> = ?a * 2 ^ n" by (simp add: abs_mult)
  have sh': "excess_bits (?a * 2 ^ n) = ?sh + n" using m by (rule excess_bits_scale_large)
  have pos: "0 < ?sh" using m by (simp add: excess_bits_large)
  have q: "(?a * 2 ^ n) div 2 ^ (?sh + n) = ?a div 2 ^ ?sh"
    by (simp add: power_add)
  have r: "(?a * 2 ^ n) mod 2 ^ (?sh + n) = (?a mod 2 ^ ?sh) * 2 ^ n"
    by (simp add: power_add)
  have c1: "(2::int) ^ (?sh + n) < 2 * ((?a mod 2 ^ ?sh) * 2 ^ n) \<longleftrightarrow> 2 ^ ?sh < 2 * (?a mod 2 ^ ?sh)"
    by (simp add: power_add)
  have c2: "2 * ((?a mod 2 ^ ?sh) * 2 ^ n) = (2::int) ^ (?sh + n) \<longleftrightarrow> 2 * (?a mod 2 ^ ?sh) = 2 ^ ?sh"
    by (simp add: power_add)
  have s: "sgn (m * 2 ^ n) = sgn m" by (simp add: sgn_mult)
  define q' where "q' = (if 2 ^ ?sh < 2 * (?a mod 2 ^ ?sh) \<or> (2 * (?a mod 2 ^ ?sh) = 2 ^ ?sh \<and> odd (?a div 2 ^ ?sh))
      then ?a div 2 ^ ?sh + 1 else ?a div 2 ^ ?sh)"
  have "round53 (m * 2 ^ n) = sgn m * (q' * 2 ^ (?sh + n))"
    unfolding round53_def Let_def a sh' q r c1 c2 s q'_def using pos by simp
  moreover have "round53 m = sgn m * (q' * 2 ^ ?sh)"
    unfolding round53_def Let_def q'_def using pos by simp
  ultimately show ?thesis by (simp add: power_add)
qed

lemma round53_small: "\<bar>m\<bar> < 2 ^ 53 \<Longrightarrow> round53 m = m"
  using round53_exact[of m 0] by simp

lemma round53_scale: "round53 (m * 2 ^ n) = round53 m * 2 ^ n"
proof (cases "\<bar>m\<bar> < 2 ^ 53")
  case True
  then show ?thesis by (simp add: round53_exact round53_small)
next
  case False
  then show ?thesis by (intro round53_scale_large) simp
qed

lemma of_exact_pos: "0 < k \<Longrightarrow> dlt dzero (of_exact k)"
  using round53_pos[of k] by (simp add: of_exact_def Let_def)

lemma fadd_pos:
  assumes "a = dzero \<or> dlt dzero a" and "dlt dzero x"
  shows "dlt dzero (fadd a x)"
proof (cases x)
  case (Finite j)
  with assms(2) have j: "0 < j" by simp
  show ?thesis
  proof (cases a)
    case (Finite i)
    with assms(1) have "0 \<le> i" by auto
    with j have "0 < i + j" by simp
    then show ?thesis using Finite \<open>x = Finite j\<close> by (simp add: of_exact_pos)
  next
    case PInf
    then show ?thesis using \<open>x = Finite j\<close> by simp
  next
    case NInf
    with assms(1) show ?thesis by simp
  next
    case NaN
    with assms(1) show ?thesis by simp
  qed
next
  case PInf
  with assms(1) show ?thesis by (cases a) auto
next
  case NInf
  with assms(2) show ?thesis by simp
next
  case NaN
  with assms(2) show ?thesis by simp
qed

text \<open>
  Sums, differences and comparisons of floats written with mantissa and exponent,
  computed on the mantissas after alignment. The side conditions exclude overflow.
\<close>

lemma dbl_align: "e2 \<le> e1 \<Longrightarrow> - 1074 \<le> e2 \<Longrightarrow>
  dbl m e1 = Finite ((m * 2 ^ nat (e1 - e2)) * 2 ^ nat (e2 + 1074))"
proof -
  assume "e2 \<le> e1" "- 1074 \<le> e2"
  then have "nat (e1 + 1074) = nat (e1 - e2) + nat (e2 + 1074)" by simp
  then show ?thesis by (simp add: dbl_def power_add mult.assoc)
qed

lemma of_exact_dbl:
  assumes "- 1074 \<le> e" "e \<le> 900" "\<bar>round53 k\<bar> < 2 ^ 120"
  shows "of_exact (k * 2 ^ nat (e + 1074)) = dbl (round53 k) e"
proof -
  let ?n = "nat (e + 1074)"
  have n: "?n \<le> 1974" using assms(1,2) by simp
  have "\<bar>round53 k * 2 ^ ?n\<bar> = \<bar>round53 k\<bar> * 2 ^ ?n" by (simp add: abs_mult)
  also have "\<dots> < 2 ^ 120 * 2 ^ ?n" using assms(3) by simp
  also have "\<dots> \<le> 2 ^ 120 * (2::int) ^ 1974"
    using n by (intro mult_left_mono power_increasing) simp_all
  also have "\<dots> \<le> 2 ^ 2098" by (simp flip: power_add)
  finally have "\<bar>round53 k * 2 ^ ?n\<bar> < 2 ^ 2098" .
  then have "\<not> 2 ^ 2098 \<le> round53 k * 2 ^ ?n" "\<not> round53 k * 2 ^ ?n \<le> - (2 ^ 2098)"
    by linarith+
  then show ?thesis
    unfolding of_exact_def Let_def round53_scale dbl_def by (simp only: if_False)
qed

lemma fadd_dbl_ge:
  assumes "- 1074 \<le> e2" "e2 \<le> e1" "e2 \<le> 900"
    "\<bar>round53 (m1 * 2 ^ nat (e1 - e2) + m2)\<bar> < 2 ^ 120"
  shows "fadd (dbl m1 e1) (dbl m2 e2) = dbl (round53 (m1 * 2 ^ nat (e1 - e2) + m2)) e2"
proof -
  have "fadd (dbl m1 e1) (dbl m2 e2) =
      of_exact ((m1 * 2 ^ nat (e1 - e2)) * 2 ^ nat (e2 + 1074) + m2 * 2 ^ nat (e2 + 1074))"
    unfolding dbl_align[OF assms(2,1)] by (simp add: dbl_def)
  also have "\<dots> = of_exact ((m1 * 2 ^ nat (e1 - e2) + m2) * 2 ^ nat (e2 + 1074))"
    by (simp only: distrib_right)
  also have "\<dots> = dbl (round53 (m1 * 2 ^ nat (e1 - e2) + m2)) e2"
    using assms(1,3,4) by (rule of_exact_dbl)
  finally show ?thesis .
qed

lemma fadd_dbl_le:
  assumes "- 1074 \<le> e1" "e1 \<le> e2" "e1 \<le> 900"
    "\<bar>round53 (m1 + m2 * 2 ^ nat (e2 - e1))\<bar> < 2 ^ 120"
  shows "fadd (dbl m1 e1) (dbl m2 e2) = dbl (round53 (m1 + m2 * 2 ^ nat (e2 - e1))) e1"
proof -
  have "fadd (dbl m1 e1) (dbl m2 e2) =
      of_exact (m1 * 2 ^ nat (e1 + 1074) + (m2 * 2 ^ nat (e2 - e1)) * 2 ^ nat (e1 + 1074))"
    unfolding dbl_align[OF assms(2,1)] by (simp add: dbl_def)
  also have "\<dots> = of_exact ((m1 + m2 * 2 ^ nat (e2 - e1)) * 2 ^ nat (e1 + 1074))"
    by (simp only: distrib_right)
  also have "\<dots> = dbl (round53 (m1 + m2 * 2 ^ nat (e2 - e1))) e1"
    using assms(1,3,4) by (rule of_exact_dbl)
  finally show ?thesis .
qed

lemma fneg_dbl: "fneg (dbl m e) = dbl (- m) e"
  by (simp add: dbl_def)

lemma dlt_dbl_ge: "- 1074 \<le> e2 \<Longrightarrow> e2 \<le> e1 \<Longrightarrow>
  dlt (dbl m1 e1) (dbl m2 e2) \<longleftrightarrow> m1 * 2 ^ nat (e1 - e2) < m2"
  unfolding dbl_align[of e2 e1 m1] by (simp add: dbl_def)

lemma dlt_dbl_le: "- 1074 \<le> e1 \<Longrightarrow> e1 \<le> e2 \<Longrightarrow>
  dlt (dbl m1 e1) (dbl m2 e2) \<longleftrightarrow> m1 < m2 * 2 ^ nat (e2 - e1)"
  unfolding dbl_align[of e1 e2 m2] by (simp add: dbl_def)

lemma dbl_eq_ge: "- 1074 \<le> e2 \<Longrightarrow> e2 \<le> e1 \<Longrightarrow>
  dbl m1 e1 = dbl m2 e2 \<longleftrightarrow> m1 * 2 ^ nat (e1 - e2) = m2"
  unfolding dbl_align[of e2 e1 m1] by (simp add: dbl_def)

lemma dbl_eq_le: "- 1074 \<le> e1 \<Longrightarrow> e1 \<le> e2 \<Longrightarrow>
  dbl m1 e1 = dbl m2 e2 \<longleftrightarrow> m1 = m2 * 2 ^ nat (e2 - e1)"
  unfolding dbl_align[of e1 e2 m2] by (simp add: dbl_def)

lemma dzero_dbl: "Finite 0 = dbl 0 0"
  by (simp add: dbl_def)

text \<open>Unfolding rules that evaluate float arithmetic on concrete numbers.\<close>

lemmas dbl_simps = fsub_def fneg_dbl fadd_dbl_ge fadd_dbl_le dlt_dbl_ge dlt_dbl_le
  dbl_eq_ge dbl_eq_le dzero_dbl round53_def excess_bits.simps Let_def

subsection \<open>Dictionaries\<close>

lemma map_of_dict_set: "map_of (dict_set d k v) = (map_of d)(k \<mapsto> v)"
  by (induction d) (auto simp: fun_eq_iff)

lemma keys_dict_set:
  "map fst (dict_set d k v) = (if k \<in> fst ` set d then map fst d else map fst d @ [k])"
  by (induction d) force+

lemma distinct_dict_set:
  "distinct (map fst d) \<Longrightarrow> distinct (map fst (dict_set d k v))"
  by (simp add: keys_dict_set)

lemma dict_set_absent: "k \<notin> fst ` set d \<Longrightarrow> dict_set d k v = d @ [(k, v)]"
  by (induction d) auto

lemma dict_set_nonempty: "dict_set d k v \<noteq> []"
  by (cases d) (auto split: if_splits)

text \<open>Unfolding rules that evaluate the pipeline on a concrete input.\<close>
text \<open>Unfolding rules that evaluate the pipeline on a concrete input.\<close>

lemmas eval_simps = assign_roles_def teacher_label_def speaker_talk_time_def
  max_key_or_unknown_def dict_get_def py_str_def digits.simps digit_char_def
  overlap_duration_def speaker_times_def fuse_def fuse_segment_def
  dominant_speaker_def strip_def py_isspace_def total_talk_time_def total_overlap_def
  float_sum_def py_max_def py_min_def student_order_def first_seen_def process_audio_def
  dbl_simps

subsection \<open>The labelling loop leaves everything but the role alone\<close>

lemma roles_loop_length: "length (roles_loop T c m us) = length us"
  by (induction us arbitrary: c m) (auto split: option.splits)

lemma roles_loop_frame:
  "i < length us \<Longrightarrow>
   \<exists>r. roles_loop T c m us ! i = (us ! i)\<lparr>speaker_role := Some r\<rparr>"
proof (induction us arbitrary: c m i)
  case Nil
  then show ?case by simp
next
  case (Cons u us)
  show ?case
  proof (cases i)
    case 0
    then show ?thesis by (auto split: option.splits)
  next
    case (Suc j)
    with Cons.prems have "j < length us" by simp
    from Cons.IH[OF this] Suc show ?thesis by (auto split: option.splits)
  qed
qed

text \<open>Talk time reads the speaker and the time stamps only, the loop the speaker only.\<close>

lemma talk_time_loop_roles:
  "talk_time_loop d (roles_loop T c m us) = talk_time_loop d us"
  by (induction us arbitrary: d c m) (auto split: option.splits)

lemma roles_loop_twice:
  "roles_loop T c m (roles_loop T' c' m' us) = roles_loop T c m us"
  by (induction us arbitrary: c m c' m') (auto split: option.splits)

subsection \<open>The maximal key\<close>

text \<open>
  The key returned is a key of the dict, no value is greater than its value, and a
  key whose value is strictly above all the others is the one returned.
\<close>

lemma dict_get_dict_set:
  "dict_get (dict_set d k v) k' dflt = (if k' = k then v else dict_get d k' dflt)"
  by (simp add: dict_get_def map_of_dict_set)

lemma max_from_in: "max_from p ps \<in> fst ` set (p # ps)"
  by (induction p ps rule: max_from.induct) auto

lemma max_from_running:
  "\<exists>w. (max_from (k, v) d, w) \<in> set ((k, v) # d) \<and> (w = v \<or> dlt v w) \<and>
       (\<forall>(k', v') \<in> set d. \<not> dlt w v')"
proof (induction "(k, v)" d arbitrary: k v rule: max_from.induct)
  case (1 k v)
  then show ?case by simp
next
  case (2 k v k' v' d)
  show ?case
  proof (cases "dlt v v'")
    case True
    with 2 obtain w where w: "(max_from (k', v') d, w) \<in> set ((k', v') # d)"
      "w = v' \<or> dlt v' w" "\<forall>(a, b) \<in> set d. \<not> dlt w b" by blast
    from w(2) True have "dlt v w" using dlt_trans by blast
    moreover from w(2) have "\<not> dlt w v'" using dlt_irrefl dlt_asym by blast
    ultimately show ?thesis using True w(1,3) by (intro exI[of _ w]) auto
  next
    case False
    with 2 obtain w where w: "(max_from (k, v) d, w) \<in> set ((k, v) # d)"
      "w = v \<or> dlt v w" "\<forall>(a, b) \<in> set d. \<not> dlt w b" by blast
    have "\<not> dlt w v'"
    proof
      assume "dlt w v'"
      with w(2) False show False using dlt_trans by blast
    qed
    then show ?thesis using False w by (intro exI[of _ w]) auto
  qed
qed

lemma max_from_greatest:
  "\<exists>w. (max_from p ps, w) \<in> set (p # ps) \<and> (\<forall>(k', v') \<in> set (p # ps). \<not> dlt w v')"
proof -
  obtain k v where p: "p = (k, v)" by (cases p)
  from max_from_running[of k v ps] obtain w where
    w: "(max_from (k, v) ps, w) \<in> set ((k, v) # ps)" "w = v \<or> dlt v w"
       "\<forall>(k', v') \<in> set ps. \<not> dlt w v'" by blast
  from w(2) have "\<not> dlt w v" using dlt_irrefl dlt_asym by blast
  with w(1,3) show ?thesis unfolding p by (intro exI[of _ w]) auto
qed

lemma max_key_in:
  assumes "d \<noteq> []"
  shows "max_key_or_unknown d \<in> fst ` set d"
proof -
  from assms obtain p ps where d: "d = p # ps" by (cases d) auto
  have "max_from p ps \<in> fst ` set (p # ps)" by (rule max_from_in)
  then show ?thesis by (simp add: d max_key_or_unknown_def)
qed

lemma max_key_greatest:
  assumes "d \<noteq> []" and "distinct (map fst d)"
  shows "\<exists>v. map_of d (max_key_or_unknown d) = Some v \<and>
    (\<forall>k' v'. map_of d k' = Some v' \<longrightarrow> \<not> dlt v v')"
proof -
  from assms(1) obtain p ps where d: "d = p # ps" by (cases d) auto
  from max_from_greatest[of p ps] obtain v where
    v: "(max_from p ps, v) \<in> set d" "\<forall>(k', v') \<in> set d. \<not> dlt v v'" using d by auto
  have "max_key_or_unknown d = max_from p ps"
    by (simp add: d max_key_or_unknown_def)
  with v(1) assms(2) have "map_of d (max_key_or_unknown d) = Some v"
    by (simp add: map_of_is_SomeI)
  moreover have "\<forall>k' v'. map_of d k' = Some v' \<longrightarrow> \<not> dlt v v'"
    using v(2) by (auto dest: map_of_SomeD)
  ultimately show ?thesis by blast
qed

lemma max_key_strict:
  assumes "distinct (map fst d)" and "map_of d A = Some a"
    and "\<forall>k v. map_of d k = Some v \<longrightarrow> k \<noteq> A \<longrightarrow> dlt v a"
  shows "max_key_or_unknown d = A"
proof (rule ccontr)
  assume neq: "max_key_or_unknown d \<noteq> A"
  from assms(2) have "d \<noteq> []" by auto
  from max_key_greatest[OF this assms(1)] obtain v where
    v: "map_of d (max_key_or_unknown d) = Some v"
       "\<forall>k' v'. map_of d k' = Some v' \<longrightarrow> \<not> dlt v v'"
    by blast
  from v(1) neq assms(3) have "dlt v a" by blast
  moreover from v(2) assms(2) have "\<not> dlt v a" by blast
  ultimately show False by simp
qed

subsection \<open>Talk time and the teacher\<close>

lemma key_set_dict_set: "fst ` set (dict_set d k v) = insert k (fst ` set d)"
proof -
  have "set (map fst (dict_set d k v)) = insert k (set (map fst d))"
    unfolding keys_dict_set by auto
  then show ?thesis by simp
qed

lemma talk_time_loop_keys:
  "fst ` set (talk_time_loop d us) = fst ` set d \<union> speaker ` set us"
  by (induction us arbitrary: d) (simp_all add: key_set_dict_set)

lemma talk_time_loop_distinct:
  "distinct (map fst d) \<Longrightarrow> distinct (map fst (talk_time_loop d us))"
  by (induction us arbitrary: d) (auto simp: distinct_dict_set)

lemma filter_speaker_absent: "sp \<notin> speaker ` set us \<Longrightarrow> filter (\<lambda>u. speaker u = sp) us = []"
  by (induction us) auto

text \<open>The loop continues the running total of a speaker from the entry it finds.\<close>

lemma talk_time_loop_lookup:
  "map_of (talk_time_loop d us) sp =
     (if sp \<in> speaker ` set us
      then Some (foldl fadd (dict_get d sp dzero)
             (map (\<lambda>u. fsub (utt_end u) (utt_start u)) (filter (\<lambda>u. speaker u = sp) us)))
      else map_of d sp)"
proof (induction us arbitrary: d)
  case Nil
  then show ?case by simp
next
  case (Cons u us)
  then show ?case
    by (cases "sp \<in> speaker ` set us")
       (auto simp: filter_speaker_absent map_of_dict_set dict_get_dict_set)
qed

lemma speaker_talk_time_lookup:
  "map_of (speaker_talk_time us) sp =
     (if sp \<in> speaker ` set us then Some (total_talk_time us sp) else None)"
  by (simp add: speaker_talk_time_def talk_time_loop_lookup dict_get_def total_talk_time_def
      float_sum_def)

lemma speaker_talk_time_distinct: "distinct (map fst (speaker_talk_time us))"
  by (simp add: speaker_talk_time_def talk_time_loop_distinct)

lemma speaker_talk_time_keys: "fst ` set (speaker_talk_time us) = speaker ` set us"
  using talk_time_loop_keys[of "[]" us] by (simp add: speaker_talk_time_def)

lemma speaker_talk_time_empty: "speaker_talk_time us = [] \<longleftrightarrow> us = []"
  using speaker_talk_time_keys[of us] by (cases us) auto

lemma teacher_label_in: "us \<noteq> [] \<Longrightarrow> teacher_label us \<in> speaker ` set us"
  using max_key_in[of "speaker_talk_time us"]
  by (simp add: teacher_label_def speaker_talk_time_empty speaker_talk_time_keys)

lemma teacher_label_greatest:
  assumes "sp \<in> speaker ` set us"
  shows "\<not> dlt (total_talk_time us (teacher_label us)) (total_talk_time us sp)"
proof -
  from assms have ne: "us \<noteq> []" by auto
  then have "speaker_talk_time us \<noteq> []" by (simp add: speaker_talk_time_empty)
  from max_key_greatest[OF this speaker_talk_time_distinct] obtain v where
    v: "map_of (speaker_talk_time us) (teacher_label us) = Some v"
       "\<forall>k' v'. map_of (speaker_talk_time us) k' = Some v' \<longrightarrow> \<not> dlt v v'"
    by (auto simp: teacher_label_def)
  from v(1) have "v = total_talk_time us (teacher_label us)"
    by (simp add: speaker_talk_time_lookup split: if_splits)
  moreover have "map_of (speaker_talk_time us) sp = Some (total_talk_time us sp)"
    using assms by (simp add: speaker_talk_time_lookup)
  with v(2) have "\<not> dlt v (total_talk_time us sp)" by blast
  ultimately show ?thesis by simp
qed

lemma teacher_label_strict:
  assumes "A \<in> speaker ` set us"
    and "\<forall>B \<in> speaker ` set us. B \<noteq> A \<longrightarrow>
           dlt (total_talk_time us B) (total_talk_time us A)"
  shows "teacher_label us = A"
  unfolding teacher_label_def
proof (rule max_key_strict[OF speaker_talk_time_distinct])
  show "map_of (speaker_talk_time us) A = Some (total_talk_time us A)"
    using assms(1) by (simp add: speaker_talk_time_lookup)
  show "\<forall>k v. map_of (speaker_talk_time us) k = Some v \<longrightarrow> k \<noteq> A \<longrightarrow>
      dlt v (total_talk_time us A)"
    using assms(2) by (auto simp: speaker_talk_time_lookup split: if_splits)
qed

subsection \<open>The three branches of the labelling loop\<close>

lemma roles_loop_teacher:
  "i < length us \<Longrightarrow> speaker (us ! i) = T \<Longrightarrow>
   speaker_role (roles_loop T c m us ! i) = Some ''Teacher''"
proof (induction us arbitrary: c m i)
  case Nil
  then show ?case by simp
next
  case (Cons u us)
  then show ?case by (cases i) (auto split: option.splits)
qed

lemma roles_loop_unknown:
  "i < length us \<Longrightarrow> speaker (us ! i) \<noteq> T \<Longrightarrow> speaker (us ! i) = ''UNKNOWN'' \<Longrightarrow>
   speaker_role (roles_loop T c m us ! i) = Some ''Unknown''"
proof (induction us arbitrary: c m i)
  case Nil
  then show ?case by simp
next
  case (Cons u us)
  then show ?case by (cases i) (auto split: option.splits)
qed

subsection \<open>Speakers in order of first appearance\<close>

lemma foldl_seen_prefix: "\<exists>zs. foldl seen_step seen xs = seen @ zs"
proof (induction xs arbitrary: seen)
  case Nil
  then show ?case by simp
next
  case (Cons x xs)
  show ?case
  proof (cases "x \<in> set seen")
    case True
    with Cons[of seen] show ?thesis by simp
  next
    case False
    from Cons[of "seen @ [x]"] obtain zs where "foldl seen_step (seen @ [x]) xs = (seen @ [x]) @ zs"
      by blast
    with False show ?thesis by simp
  qed
qed

lemma foldl_seen_nth:
  "n < length seen \<Longrightarrow> foldl seen_step seen xs ! n = seen ! n \<and> n < length (foldl seen_step seen xs)"
  using foldl_seen_prefix[of seen xs] by (auto simp: nth_append)

lemma foldl_seen_distinct: "distinct seen \<Longrightarrow> distinct (foldl seen_step seen xs)"
  by (induction xs arbitrary: seen) auto

lemma foldl_seen_set: "set (foldl seen_step seen xs) = set seen \<union> set xs"
  by (induction xs arbitrary: seen) auto

lemma first_seen_distinct: "distinct (first_seen xs)"
  by (simp add: first_seen_def foldl_seen_distinct)

lemma first_seen_set: "set (first_seen xs) = set xs"
  by (simp add: first_seen_def foldl_seen_set)

lemma first_seen_Nil: "first_seen [] = []"
  by (simp add: first_seen_def)

lemma first_seen_snoc:
  "first_seen (xs @ [x]) = (if x \<in> set xs then first_seen xs else first_seen xs @ [x])"
  by (simp add: first_seen_def foldl_seen_set)

subsection \<open>The student map\<close>

lemma student_state_lookup_None:
  "student_state c m seen \<Longrightarrow> s \<notin> set seen \<Longrightarrow> map_of m s = None"
  by (simp add: student_state_def map_of_zip_is_None)

lemma student_state_lookup_Some:
  "student_state c m seen \<Longrightarrow> n < length seen \<Longrightarrow>
   map_of m (seen ! n) = Some (''Student '' @ py_str (int n + 1))"
  by (simp add: student_state_def map_of_zip_nth)

lemma student_state_step:
  assumes "student_state c m seen" and "s \<notin> set seen"
  shows "student_state (c + 1) (dict_set m s (''Student '' @ py_str c)) (seen @ [s])"
proof -
  let ?lbl = "\<lambda>n. ''Student '' @ py_str (int n + 1)"
  from assms have m: "m = zip seen (map ?lbl [0..<length seen])"
    and c: "c = int (length seen) + 1" and d: "distinct seen"
    by (simp_all add: student_state_def)
  have "s \<notin> fst ` set m"
    unfolding m using assms(2) by (auto dest: set_zip_leftD)
  then have "dict_set m s (''Student '' @ py_str c) = m @ [(s, ?lbl (length seen))]"
    using c by (simp add: dict_set_absent)
  also have "\<dots> = zip (seen @ [s]) (map ?lbl [0..<length (seen @ [s])])"
    using m by simp
  finally show ?thesis
    using c d assms(2) by (simp add: student_state_def)
qed

lemma roles_loop_student:
  "student_state c m seen \<Longrightarrow> i < length us \<Longrightarrow>
   speaker (us ! i) \<noteq> T \<Longrightarrow> speaker (us ! i) \<noteq> ''UNKNOWN'' \<Longrightarrow>
   \<exists>n < length (foldl seen_step seen (filter (\<lambda>s. s \<noteq> T \<and> s \<noteq> ''UNKNOWN'') (map speaker us))).
     foldl seen_step seen (filter (\<lambda>s. s \<noteq> T \<and> s \<noteq> ''UNKNOWN'') (map speaker us)) ! n
       = speaker (us ! i) \<and>
     speaker_role (roles_loop T c m us ! i) = Some (''Student '' @ py_str (int n + 1))"
proof (induction us arbitrary: c m seen i)
  case Nil
  then show ?case by simp
next
  case (Cons u us)
  let ?P = "\<lambda>s. s \<noteq> T \<and> s \<noteq> ''UNKNOWN''"
  let ?F = "\<lambda>seen us. foldl seen_step seen (filter ?P (map speaker us))"
  show ?case
  proof (cases "?P (speaker u)")
    case False
    then obtain j where i: "i = Suc j" using Cons.prems by (cases i) auto
    with Cons.prems have j: "j < length us" "?P (speaker (us ! j))" by auto
    from Cons.IH[OF Cons.prems(1) j(1)] j(2)
    obtain n where "n < length (?F seen us)" "?F seen us ! n = speaker (us ! j)"
      "speaker_role (roles_loop T c m us ! j) = Some (''Student '' @ py_str (int n + 1))"
      by blast
    with False i show ?thesis by (intro exI[of _ n]) auto
  next
    case student: True
    show ?thesis
    proof (cases "speaker u \<in> set seen")
      case True
      then obtain n0 where n0: "n0 < length seen" "seen ! n0 = speaker u"
        by (auto simp: in_set_conv_nth)
      from student_state_lookup_Some[OF Cons.prems(1) n0(1)] n0(2)
      have look: "map_of m (speaker u) = Some (''Student '' @ py_str (int n0 + 1))" by simp
      have F: "?F seen (u # us) = ?F seen us" using student True by simp
      show ?thesis
      proof (cases i)
        case 0
        from foldl_seen_nth[OF n0(1), of "filter ?P (map speaker us)"] n0(2)
        have "n0 < length (?F seen us)" "?F seen us ! n0 = speaker u" by auto
        with 0 student look F show ?thesis by (intro exI[of _ n0]) auto
      next
        case (Suc j)
        with Cons.prems have j: "j < length us" "?P (speaker (us ! j))" by auto
        from Cons.IH[OF Cons.prems(1) j(1)] j(2)
        obtain n where "n < length (?F seen us)" "?F seen us ! n = speaker (us ! j)"
          "speaker_role (roles_loop T c m us ! j) = Some (''Student '' @ py_str (int n + 1))"
          by blast
        with Suc student look F show ?thesis by (intro exI[of _ n]) auto
      qed
    next
      case False
      from student_state_lookup_None[OF Cons.prems(1) False]
      have look: "map_of m (speaker u) = None" .
      let ?m' = "dict_set m (speaker u) (''Student '' @ py_str c)"
      let ?seen' = "seen @ [speaker u]"
      have st': "student_state (c + 1) ?m' ?seen'"
        by (rule student_state_step[OF Cons.prems(1) False])
      have F: "?F seen (u # us) = ?F ?seen' us" using student False by simp
      have c: "c = int (length seen) + 1" using Cons.prems(1) by (simp add: student_state_def)
      show ?thesis
      proof (cases i)
        case 0
        have "length seen < length ?seen'" by simp
        from foldl_seen_nth[OF this, of "filter ?P (map speaker us)"]
        have "length seen < length (?F ?seen' us)" "?F ?seen' us ! length seen = speaker u" by auto
        with 0 student look F c show ?thesis by (intro exI[of _ "length seen"]) auto
      next
        case (Suc j)
        with Cons.prems have j: "j < length us" "?P (speaker (us ! j))" by auto
        from Cons.IH[OF st' j(1)] j(2)
        obtain n where "n < length (?F ?seen' us)" "?F ?seen' us ! n = speaker (us ! j)"
          "speaker_role (roles_loop T (c + 1) ?m' us ! j) = Some (''Student '' @ py_str (int n + 1))"
          by blast
        with Suc student look F show ?thesis by (intro exI[of _ n]) auto
      qed
    qed
  qed
qed

lemma student_state_init: "student_state 1 [] []"
  by (simp add: student_state_def)

lemma assign_roles_student:
  assumes "i < length us" "speaker (us ! i) \<noteq> teacher_label us" "speaker (us ! i) \<noteq> ''UNKNOWN''"
  shows "\<exists>n < length (student_order us). student_order us ! n = speaker (us ! i) \<and>
     speaker_role (assign_roles us ! i) = Some (''Student '' @ py_str (int n + 1))"
  using roles_loop_student[OF student_state_init assms]
  by (simp add: student_order_def first_seen_def assign_roles_def)

subsection \<open>Overlap totals\<close>

lemma py_max_zero: "py_max dzero x = dzero \<or> dlt dzero (py_max dzero x)"
  by (simp add: py_max_def)

lemma overlap_duration_sign:
  "overlap_duration s e t = dzero \<or> dlt dzero (overlap_duration s e t)"
  by (simp add: overlap_duration_def Let_def py_max_zero)

lemma overlap_duration_zero_iff:
  "overlap_duration s e t = dzero \<longleftrightarrow> \<not> dlt dzero (overlap_duration s e t)"
  using overlap_duration_sign[of s e t] dlt_irrefl[of dzero] by auto

text \<open>A running total that starts at zero or above and adds positive floats is positive.\<close>

lemma foldl_fadd_pos:
  "a = dzero \<or> dlt dzero a \<Longrightarrow> \<forall>x \<in> set xs. dlt dzero x \<Longrightarrow> xs \<noteq> [] \<Longrightarrow>
   dlt dzero (foldl fadd a xs)"
proof (induction xs arbitrary: a)
  case Nil
  then show ?case by simp
next
  case (Cons x xs)
  from Cons.prems have step: "dlt dzero (fadd a x)" by (intro fadd_pos) simp_all
  show ?case
  proof (cases xs)
    case Nil
    with step show ?thesis by simp
  next
    case (Cons y ys)
    with Cons.IH[of "fadd a x"] step Cons.prems show ?thesis by simp
  qed
qed

lemma total_overlap_pos:
  assumes "\<exists>t \<in> set ts. turn_speaker t = sp \<and> dlt dzero (overlap_duration s e t)"
  shows "dlt dzero (total_overlap s e ts sp)"
  unfolding total_overlap_def float_sum_def
proof (rule foldl_fadd_pos)
  let ?P = "\<lambda>t. turn_speaker t = sp \<and> dlt dzero (overlap_duration s e t)"
  show "dzero = dzero \<or> dlt dzero dzero" by simp
  show "\<forall>x \<in> set (map (overlap_duration s e) (filter ?P ts)). dlt dzero x" by auto
  from assms show "map (overlap_duration s e) (filter ?P ts) \<noteq> []"
    by (auto simp: filter_empty_conv)
qed

lemma filter_overlap_absent:
  "\<not> (\<exists>t \<in> set ts. turn_speaker t = sp \<and> dlt dzero (overlap_duration s e t)) \<Longrightarrow>
   filter (\<lambda>t. turn_speaker t = sp \<and> dlt dzero (overlap_duration s e t)) ts = []"
  by (induction ts) auto

lemma speaker_times_loop_lookup:
  "map_of (speaker_times_loop s e d ts) sp =
     (if \<exists>t \<in> set ts. turn_speaker t = sp \<and> dlt dzero (overlap_duration s e t)
      then Some (foldl fadd (dict_get d sp dzero)
             (map (overlap_duration s e)
                (filter (\<lambda>t. turn_speaker t = sp \<and> dlt dzero (overlap_duration s e t)) ts)))
      else map_of d sp)"
proof (induction ts arbitrary: d)
  case Nil
  then show ?case by simp
next
  case (Cons t ts)
  show ?case
  proof (cases "\<exists>t \<in> set ts. turn_speaker t = sp \<and> dlt dzero (overlap_duration s e t)")
    case True
    with Cons show ?thesis
      by (auto simp: map_of_dict_set dict_get_dict_set)
  next
    case False
    then have "filter (\<lambda>t. turn_speaker t = sp \<and> dlt dzero (overlap_duration s e t)) ts = []"
      by (rule filter_overlap_absent)
    with False Cons show ?thesis
      by (auto simp: map_of_dict_set dict_get_dict_set)
  qed
qed

lemma speaker_times_loop_distinct:
  "distinct (map fst d) \<Longrightarrow> distinct (map fst (speaker_times_loop s e d ts))"
  by (induction ts arbitrary: d) (auto simp: distinct_dict_set)

lemma speaker_times_lookup:
  "map_of (speaker_times s e ts) sp =
     (if \<exists>t \<in> set ts. turn_speaker t = sp \<and> dlt dzero (overlap_duration s e t)
      then Some (total_overlap s e ts sp) else None)"
  by (simp add: speaker_times_def speaker_times_loop_lookup dict_get_def total_overlap_def
      float_sum_def)

lemma speaker_times_distinct: "distinct (map fst (speaker_times s e ts))"
  by (simp add: speaker_times_def speaker_times_loop_distinct)

lemma speaker_times_entry:
  "(sp, v) \<in> set (speaker_times s e ts) \<longleftrightarrow>
     (\<exists>t \<in> set ts. turn_speaker t = sp \<and> dlt dzero (overlap_duration s e t)) \<and>
     v = total_overlap s e ts sp"
proof -
  have "(sp, v) \<in> set (speaker_times s e ts) \<longleftrightarrow> map_of (speaker_times s e ts) sp = Some v"
    using speaker_times_distinct[of s e ts] by simp
  then show ?thesis by (auto simp: speaker_times_lookup)
qed

lemma speaker_times_keys:
  "sp \<in> fst ` set (speaker_times s e ts) \<longleftrightarrow>
     (\<exists>t \<in> set ts. turn_speaker t = sp \<and> dlt dzero (overlap_duration s e t))"
proof -
  have "sp \<in> fst ` set (speaker_times s e ts) \<longleftrightarrow> (\<exists>v. (sp, v) \<in> set (speaker_times s e ts))"
    by force
  then show ?thesis by (simp add: speaker_times_entry)
qed

lemma speaker_times_empty:
  "speaker_times s e ts = [] \<longleftrightarrow> (\<forall>t \<in> set ts. overlap_duration s e t = dzero)"
proof -
  have "speaker_times s e ts = [] \<longleftrightarrow> (\<forall>sp. sp \<notin> fst ` set (speaker_times s e ts))"
    by (cases "speaker_times s e ts") force+
  also have "\<dots> \<longleftrightarrow> (\<forall>t \<in> set ts. \<not> dlt dzero (overlap_duration s e t))"
    unfolding speaker_times_keys by blast
  also have "\<dots> \<longleftrightarrow> (\<forall>t \<in> set ts. overlap_duration s e t = dzero)"
    by (simp only: overlap_duration_zero_iff)
  finally show ?thesis .
qed

subsection \<open>The dominant speaker and the fusion loop\<close>

lemma dominant_speaker_in: "d \<noteq> [] \<Longrightarrow> dominant_speaker d \<in> fst ` set d"
  by (simp add: dominant_speaker_def max_key_in)

lemma dominant_speaker_empty: "dominant_speaker [] = ''UNKNOWN''"
  by (simp add: dominant_speaker_def max_key_or_unknown_def)

lemma fuse_loop_map: "fuse_loop ts acc sgs = acc @ map (fuse_segment ts) sgs"
  by (induction sgs arbitrary: acc) auto

lemma fuse_map: "fuse sgs ts = map (fuse_segment ts) sgs"
  by (simp add: fuse_def fuse_loop_map)

subsection \<open>Trimming\<close>

lemma last_dropWhile: "dropWhile P xs \<noteq> [] \<Longrightarrow> last (dropWhile P xs) = last xs"
  by (induction xs) auto

lemma strip_decompose:
  "\<exists>pre suf. s = pre @ strip s @ suf \<and> (\<forall>c \<in> set pre. py_isspace c) \<and> (\<forall>c \<in> set suf. py_isspace c)"
proof -
  let ?r = "dropWhile py_isspace s"
  let ?pre = "takeWhile py_isspace s"
  let ?suf = "rev (takeWhile py_isspace (rev ?r))"
  have "rev ?r = takeWhile py_isspace (rev ?r) @ dropWhile py_isspace (rev ?r)" by simp
  then have "?r = strip s @ ?suf"
    unfolding strip_def by (metis rev_append rev_rev_ident)
  then have "s = ?pre @ strip s @ ?suf"
    by (metis takeWhile_dropWhile_id)
  moreover have "\<forall>c \<in> set ?pre. py_isspace c" by (auto dest: set_takeWhileD)
  moreover have "\<forall>c \<in> set ?suf. py_isspace c" by (auto dest: set_takeWhileD)
  ultimately show ?thesis by blast
qed

lemma strip_ends:
  assumes "strip s \<noteq> []"
  shows "\<not> py_isspace (hd (strip s)) \<and> \<not> py_isspace (last (strip s))"
proof -
  let ?r = "dropWhile py_isspace s"
  let ?q = "dropWhile py_isspace (rev ?r)"
  from assms have q: "?q \<noteq> []" by (simp add: strip_def)
  have r: "?r \<noteq> []"
  proof
    assume "?r = []"
    then have "?q = []" by (simp only: rev.simps dropWhile.simps)
    with q show False by contradiction
  qed
  have "last (strip s) = hd ?q" using q by (simp add: strip_def last_rev)
  moreover have "\<not> py_isspace (hd ?q)" using q by (rule hd_dropWhile)
  moreover have "hd (strip s) = last ?q" using q by (simp add: strip_def hd_rev)
  moreover have "last ?q = last (rev ?r)" using q by (rule last_dropWhile)
  moreover have "last (rev ?r) = hd ?r" using r by (simp add: last_rev)
  moreover have "\<not> py_isspace (hd ?r)" using r by (rule hd_dropWhile)
  ultimately show ?thesis by simp
qed

subsection \<open>The first student and the decimal labels\<close>

lemma roles_loop_first_student:
  "i < length us \<Longrightarrow> speaker (us ! i) \<noteq> T \<Longrightarrow> speaker (us ! i) \<noteq> ''UNKNOWN'' \<Longrightarrow>
   \<forall>j<i. speaker (us ! j) = T \<or> speaker (us ! j) = ''UNKNOWN'' \<Longrightarrow>
   map_of m (speaker (us ! i)) = None \<Longrightarrow>
   speaker_role (roles_loop T c m us ! i) = Some (''Student '' @ py_str c)"
proof (induction us arbitrary: i)
  case Nil
  then show ?case by simp
next
  case (Cons u us)
  show ?case
  proof (cases i)
    case 0
    with Cons.prems show ?thesis by simp
  next
    case (Suc j)
    with Cons.prems have u: "speaker u = T \<or> speaker u = ''UNKNOWN''" by auto
    have "\<forall>k<j. speaker (us ! k) = T \<or> speaker (us ! k) = ''UNKNOWN''"
      using Cons.prems(4) Suc by auto
    with Cons.IH[of j] Cons.prems Suc have
      "speaker_role (roles_loop T c m us ! j) = Some (''Student '' @ py_str c)" by simp
    with u Suc show ?thesis by auto
  qed
qed

lemma py_str_1: "py_str 1 = ''1''"
  by (simp add: py_str_def digits.simps digit_char_def)

lemma assign_roles_teacher_iff:
  assumes "i < length us"
  shows "speaker_role (assign_roles us ! i) = Some ''Teacher'' \<longleftrightarrow> speaker (us ! i) = teacher_label us"
proof (cases "speaker (us ! i) = teacher_label us")
  case True
  with assms show ?thesis by (simp add: assign_roles_def roles_loop_teacher)
next
  case nt: False
  show ?thesis
  proof (cases "speaker (us ! i) = ''UNKNOWN''")
    case True
    with assms nt show ?thesis by (simp add: assign_roles_def roles_loop_unknown)
  next
    case False
    from assign_roles_student[OF assms nt False] nt show ?thesis by auto
  qed
qed

lemma dominant_speaker_unknown:
  "''UNKNOWN'' \<notin> fst ` set d \<Longrightarrow> dominant_speaker d = ''UNKNOWN'' \<longleftrightarrow> d = []"
proof
  assume "dominant_speaker d = ''UNKNOWN''" and "''UNKNOWN'' \<notin> fst ` set d"
  then show "d = []" using dominant_speaker_in[of d] by metis
next
  assume "d = []"
  then show "dominant_speaker d = ''UNKNOWN''" by (simp add: dominant_speaker_empty)
qed

lemma fuse_nth: "i < length sgs \<Longrightarrow> fuse sgs ts ! i = fuse_segment ts (sgs ! i)"
  by (simp add: fuse_map)

lemma digit_char_inj:
  assumes "m < 10" "n < 10" "digit_char m = digit_char n"
  shows "m = n"
proof -
  have cases10: "k \<in> {0, 1, 2, 3, 4, 5, 6, 7, 8, 9}" if "k < 10" for k :: nat
    using that by auto
  from cases10[OF assms(1)] cases10[OF assms(2)] assms(3) show ?thesis
    by (auto simp: digit_char_def)
qed

lemma digits_nonempty: "digits n \<noteq> []"
  by (subst digits.simps) simp

lemma digits_inj: "digits m = digits n \<Longrightarrow> m = n"
proof (induction m arbitrary: n rule: digits.induct)
  case (1 m)
  show ?case
  proof (cases "m < 10")
    case m: True
    show ?thesis
    proof (cases "n < 10")
      case True
      with m "1.prems" show ?thesis
        by (simp add: digits.simps[of m] digits.simps[of n] digit_char_inj)
    next
      case False
      with m "1.prems" digits_nonempty[of "n div 10"] show ?thesis
        by (simp add: digits.simps[of m] digits.simps[of n])
    qed
  next
    case m: False
    show ?thesis
    proof (cases "n < 10")
      case True
      with m "1.prems" digits_nonempty[of "m div 10"] show ?thesis
        by (simp add: digits.simps[of m] digits.simps[of n])
    next
      case False
      with m "1.prems" have eq: "digits (m div 10) = digits (n div 10)"
        and last: "digit_char (m mod 10) = digit_char (n mod 10)"
        by (simp_all add: digits.simps[of m] digits.simps[of n])
      from "1.IH"[OF m eq] have "m div 10 = n div 10" .
      moreover from last have "m mod 10 = n mod 10" by (intro digit_char_inj) simp_all
      ultimately show ?thesis by (metis div_mult_mod_eq)
    qed
  qed
qed

lemma student_label_inj:
  "''Student '' @ py_str (int a + 1) = ''Student '' @ py_str (int b + 1) \<Longrightarrow> a = b"
proof -
  assume "''Student '' @ py_str (int a + 1) = ''Student '' @ py_str (int b + 1)"
  then have "digits (nat (int a + 1)) = digits (nat (int b + 1))"
    by (simp add: py_str_def)
  then have "nat (int a + 1) = nat (int b + 1)" by (rule digits_inj)
  then show "a = b" by simp
qed

lemma student_order_set:
  "set (student_order us) = {s \<in> speaker ` set us. s \<noteq> teacher_label us \<and> s \<noteq> ''UNKNOWN''}"
  by (auto simp: student_order_def first_seen_set)

lemma student_order_distinct: "distinct (student_order us)"
  by (simp add: student_order_def first_seen_distinct)

lemma assign_roles_first_student:
  assumes "i < length us" "speaker (us ! i) \<noteq> teacher_label us" "speaker (us ! i) \<noteq> ''UNKNOWN''"
    and "\<forall>j<i. speaker (us ! j) = teacher_label us \<or> speaker (us ! j) = ''UNKNOWN''"
  shows "speaker_role (assign_roles us ! i) = Some ''Student 1''"
  using roles_loop_first_student[OF assms, of "[]" 1]
  by (simp add: assign_roles_def py_str_1)

lemma assign_roles_same_speaker:
  assumes "i < length us" "j < length us" "speaker (us ! i) = speaker (us ! j)"
  shows "speaker_role (assign_roles us ! i) = speaker_role (assign_roles us ! j)"
proof (cases "speaker (us ! i) = teacher_label us")
  case True
  with assms show ?thesis by (simp add: assign_roles_def roles_loop_teacher)
next
  case nt: False
  show ?thesis
  proof (cases "speaker (us ! i) = ''UNKNOWN''")
    case True
    with assms nt show ?thesis by (simp add: assign_roles_def roles_loop_unknown)
  next
    case False
    from assign_roles_student[OF assms(1) nt False] obtain n where
      n: "n < length (student_order us)" "student_order us ! n = speaker (us ! i)"
         "speaker_role (assign_roles us ! i) = Some (''Student '' @ py_str (int n + 1))"
      by blast
    from assms(3) nt False have "speaker (us ! j) \<noteq> teacher_label us" "speaker (us ! j) \<noteq> ''UNKNOWN''"
      by simp_all
    from assign_roles_student[OF assms(2) this] obtain k where
      k: "k < length (student_order us)" "student_order us ! k = speaker (us ! j)"
         "speaker_role (assign_roles us ! j) = Some (''Student '' @ py_str (int k + 1))"
      by blast
    from n(2) k(2) assms(3) have "student_order us ! n = student_order us ! k" by simp
    with n(1) k(1) have "n = k"
      using student_order_distinct[of us] by (simp only: nth_eq_iff_index_eq)
    with n(3) k(3) show ?thesis by simp
  qed
qed

lemma assign_roles_distinct_students:
  assumes "i < length us" "speaker (us ! i) \<noteq> teacher_label us" "speaker (us ! i) \<noteq> ''UNKNOWN''"
    and "j < length us" "speaker (us ! j) \<noteq> teacher_label us" "speaker (us ! j) \<noteq> ''UNKNOWN''"
    and "speaker (us ! i) \<noteq> speaker (us ! j)"
  shows "speaker_role (assign_roles us ! i) \<noteq> speaker_role (assign_roles us ! j)"
proof
  assume same: "speaker_role (assign_roles us ! i) = speaker_role (assign_roles us ! j)"
  from assign_roles_student[OF assms(1-3)] obtain n where
    n: "student_order us ! n = speaker (us ! i)"
       "speaker_role (assign_roles us ! i) = Some (''Student '' @ py_str (int n + 1))"
    by blast
  from assign_roles_student[OF assms(4-6)] obtain k where
    k: "student_order us ! k = speaker (us ! j)"
       "speaker_role (assign_roles us ! j) = Some (''Student '' @ py_str (int k + 1))"
    by blast
  from same n(2) k(2) have "''Student '' @ py_str (int n + 1) = ''Student '' @ py_str (int k + 1)"
    by simp
  then have "n = k" by (rule student_label_inj)
  with n(1) k(1) assms(7) show False by simp
qed

section \<open>The claims\<close>

text \<open>
  C1. The overlap of a turn with the span \<open>[s, e]\<close> is the float
  \<open>max(0, min(e, turn_end) - max(s, turn_start))\<close>; it is 0 or positive. The mapping
  built for the span has an entry for a speaker exactly when one of the speaker's
  turns has positive overlap, and the entry is the float sum, in turn order, of
  the speaker's positive overlaps, all of them; keys are not repeated; every value
  is positive, so none is negative; and the mapping is empty exactly when no turn
  overlaps the span.
\<close>

theorem overlap_matcher:
  "overlap_duration s e t =
     py_max dzero (fsub (py_min e (turn_end t)) (py_max s (turn_start t))) \<and>
   (overlap_duration s e t = dzero \<or> dlt dzero (overlap_duration s e t)) \<and>
   map_of (speaker_times s e turns) sp =
     (if \<exists>t \<in> set turns. turn_speaker t = sp \<and> dlt dzero (overlap_duration s e t)
      then Some (total_overlap s e turns sp) else None) \<and>
   distinct (map fst (speaker_times s e turns)) \<and>
   (\<forall>(k, v) \<in> set (speaker_times s e turns). dlt dzero v) \<and>
   (speaker_times s e turns = [] \<longleftrightarrow> (\<forall>t \<in> set turns. overlap_duration s e t = dzero))"
proof -
  have "overlap_duration s e t =
      py_max dzero (fsub (py_min e (turn_end t)) (py_max s (turn_start t)))"
    by (simp add: overlap_duration_def)
  moreover have "\<forall>(k, v) \<in> set (speaker_times s e turns). dlt dzero v"
    by (auto simp: speaker_times_entry total_overlap_pos)
  moreover note overlap_duration_sign[of s e t]
  ultimately show ?thesis
    by (simp only: speaker_times_lookup speaker_times_distinct speaker_times_empty simp_thms)
qed

theorem overlap_matcher_witness:
  "overlap_duration (sec 2) (sec 7) \<lparr>turn_start = sec 0, turn_end = sec 4, turn_speaker = ''A''\<rparr>
     = sec 2 \<and>
   speaker_times (sec 2) (sec 7) example_turns = [(''A'', sec 4), (''B'', sec 3)] \<and>
   map_of (speaker_times (sec 2) (sec 7) example_turns) ''A'' =
     Some (total_overlap (sec 2) (sec 7) example_turns ''A'') \<and>
   total_overlap (sec 2) (sec 7) example_turns ''A'' = sec 4 \<and>
   map_of (speaker_times (sec 2) (sec 7) example_turns) ''C'' = None \<and>
   speaker_times (sec 10) (sec 10) example_turns = [] \<and>
   overlap_duration d001 d003 \<lparr>turn_start = sec 0, turn_end = sec 1, turn_speaker = ''A''\<rparr>
     = dbl 2882303761517117 (- 57) \<and>
   speaker_times (sec 0) d18 rounded_turns = [(''A'', dbl 2026619832316723 (- 51)), (''B'', d09)] \<and>
   dominant_speaker (speaker_times (sec 0) d18 rounded_turns) = ''B''"
  using overlap_matcher [of "sec 2" "sec 7"
      "\<lparr>turn_start = sec 0, turn_end = sec 4, turn_speaker = ''A''\<rparr>" example_turns "''A''"]
  by (simp add: eval_simps)

text \<open>
  C2. The talk-time mapping holds, for every speaker of the transcript (the
  unmatched \<open>UNKNOWN\<close> included) and for no one else, the float sum of \<open>end - start\<close>
  over the speaker's utterances, in order. The teacher label of a non-empty
  transcript is one of its speakers, no speaker has a greater total, and an
  utterance is labelled \<open>Teacher\<close> exactly when its speaker is the teacher label. A
  speaker \<open>A\<close> whose total is strictly above every other speaker's is the teacher,
  however few utterances \<open>A\<close> has. On the empty transcript the output is empty and
  the label is the sentinel, which is no speaker.
\<close>

theorem teacher_by_aggregate_talk_time:
  "map_of (speaker_talk_time us) sp =
     (if sp \<in> speaker ` set us then Some (total_talk_time us sp) else None) \<and>
   (us \<noteq> [] \<longrightarrow> teacher_label us \<in> speaker ` set us) \<and>
   (\<forall>sp \<in> speaker ` set us.
      \<not> dlt (total_talk_time us (teacher_label us)) (total_talk_time us sp)) \<and>
   (\<forall>i<length us.
      speaker_role (assign_roles us ! i) = Some ''Teacher'' \<longleftrightarrow> speaker (us ! i) = teacher_label us) \<and>
   (A \<in> speaker ` set us \<and>
    (\<forall>B \<in> speaker ` set us. B \<noteq> A \<longrightarrow> dlt (total_talk_time us B) (total_talk_time us A)) \<longrightarrow>
      teacher_label us = A \<and>
      (\<forall>i<length us. speaker (us ! i) = A \<longrightarrow>
         speaker_role (assign_roles us ! i) = Some ''Teacher'')) \<and>
   assign_roles [] = [] \<and> teacher_label [] = ''UNKNOWN''"
proof -
  have "assign_roles [] = []" by (simp add: assign_roles_def)
  moreover have "teacher_label [] = ''UNKNOWN''"
    by (simp add: teacher_label_def speaker_talk_time_def max_key_or_unknown_def)
  moreover have "teacher_label us = A \<and>
      (\<forall>i<length us. speaker (us ! i) = A \<longrightarrow> speaker_role (assign_roles us ! i) = Some ''Teacher'')"
    if "A \<in> speaker ` set us"
      and "\<forall>B \<in> speaker ` set us. B \<noteq> A \<longrightarrow> dlt (total_talk_time us B) (total_talk_time us A)"
  proof -
    from that have "teacher_label us = A" by (rule teacher_label_strict)
    then show ?thesis by (simp add: assign_roles_teacher_iff)
  qed
  ultimately show ?thesis
    using speaker_talk_time_lookup[of us sp] teacher_label_in[of us]
      teacher_label_greatest[of _ us] assign_roles_teacher_iff[of _ us]
    by blast
qed

theorem teacher_by_aggregate_talk_time_witness:
  "total_talk_time example_transcript ''A'' = sec 5 \<and>
   total_talk_time example_transcript ''B'' = sec 3 \<and>
   total_talk_time example_transcript ''C'' = sec 1 \<and>
   total_talk_time example_transcript ''UNKNOWN'' = sec 1 \<and>
   speaker_talk_time example_transcript =
     [(''A'', sec 5), (''B'', sec 3), (''UNKNOWN'', sec 1), (''C'', sec 1)] \<and>
   length (filter (\<lambda>u. speaker u = ''A'') example_transcript) = 1 \<and>
   length (filter (\<lambda>u. speaker u = ''B'') example_transcript) = 2 \<and>
   teacher_label example_transcript = ''A'' \<and>
   speaker_role (assign_roles example_transcript ! 0) = Some ''Teacher'' \<and>
   total_talk_time rounded_transcript ''B'' = dbl 1936547839769313 (- 51) \<and>
   total_talk_time rounded_transcript ''A'' = d086 \<and>
   dlt (total_talk_time rounded_transcript ''B'') (total_talk_time rounded_transcript ''A'') \<and>
   teacher_label rounded_transcript = ''A'' \<and>
   map speaker_role (assign_roles rounded_transcript) =
     [Some ''Student 1'', Some ''Student 1'', Some ''Teacher''] \<and>
   total_talk_time (tie_transcript ''B'') ''A'' = d003 \<and>
   total_talk_time (tie_transcript ''B'') ''B'' = d003 \<and>
   teacher_label (tie_transcript ''B'') = ''A'' \<and>
   map speaker_role (assign_roles (tie_transcript ''B'')) =
     [Some ''Teacher'', Some ''Student 1'', Some ''Teacher''] \<and>
   total_talk_time boundary_transcript ''A'' = sec 9007199254740992 \<and>
   total_talk_time boundary_transcript ''B'' = sec 9007199254740992 \<and>
   teacher_label boundary_transcript = ''B''"
  using teacher_by_aggregate_talk_time [of example_transcript "''A''" "''A''"]
    teacher_by_aggregate_talk_time [of rounded_transcript "''A''" "''A''"]
  by (simp add: eval_simps)

text \<open>
  C3. The labels of the diarization turns are speaker tokens, and the sentinel
  \<open>UNKNOWN\<close> is not one of them. For every sequence of segments and every such
  collection of turns, the fused utterance of the \<open>i\<close>-th segment has speaker
  \<open>UNKNOWN\<close> if and only if every turn has zero overlap with the segment.
  Equivalently, the resolver returns \<open>UNKNOWN\<close> exactly when the overlap mapping
  is empty: for the mapping of any span against these turns, and for any mapping
  without the key \<open>UNKNOWN\<close>.
\<close>

theorem unknown_exactly_when_no_overlap:
  "\<forall>t \<in> set turns. turn_speaker t \<noteq> ''UNKNOWN'' \<Longrightarrow>
   (\<forall>i<length segments.
      speaker (fuse segments turns ! i) = ''UNKNOWN'' \<longleftrightarrow>
        (\<forall>t \<in> set turns.
           overlap_duration (seg_start (segments ! i)) (seg_end (segments ! i)) t = dzero)) \<and>
   (\<forall>s e. dominant_speaker (speaker_times s e turns) = ''UNKNOWN'' \<longleftrightarrow>
      speaker_times s e turns = []) \<and>
   dominant_speaker [] = ''UNKNOWN'' \<and>
   (''UNKNOWN'' \<notin> fst ` set d \<longrightarrow> (dominant_speaker d = ''UNKNOWN'' \<longleftrightarrow> d = []))"
proof -
  assume tokens: "\<forall>t \<in> set turns. turn_speaker t \<noteq> ''UNKNOWN''"
  have resolver: "dominant_speaker (speaker_times s e turns) = ''UNKNOWN'' \<longleftrightarrow>
      speaker_times s e turns = []" for s e
  proof -
    from tokens have "''UNKNOWN'' \<notin> fst ` set (speaker_times s e turns)"
      unfolding speaker_times_keys by blast
    then show ?thesis by (rule dominant_speaker_unknown)
  qed
  have "speaker (fuse segments turns ! i) = ''UNKNOWN'' \<longleftrightarrow>
      (\<forall>t \<in> set turns.
         overlap_duration (seg_start (segments ! i)) (seg_end (segments ! i)) t = dzero)"
    if "i < length segments" for i
    using that resolver[of "seg_start (segments ! i)" "seg_end (segments ! i)"]
    by (simp add: fuse_nth fuse_segment_def speaker_times_empty)
  with resolver show ?thesis
    using dominant_speaker_empty dominant_speaker_unknown[of d] by blast
qed

theorem unknown_exactly_when_no_overlap_witness:
  "turn_speaker (example_turns ! 0) \<noteq> ''UNKNOWN'' \<and>
   turn_speaker (example_turns ! 1) \<noteq> ''UNKNOWN'' \<and>
   turn_speaker (example_turns ! 2) \<noteq> ''UNKNOWN'' \<and>
   turn_speaker (example_turns ! 3) \<noteq> ''UNKNOWN'' \<and>
   speaker (fuse example_segments example_turns ! 2) = ''UNKNOWN'' \<and>
   overlap_duration (sec 9) (sec 10) (example_turns ! 0) = dzero \<and>
   overlap_duration (sec 9) (sec 10) (example_turns ! 1) = dzero \<and>
   overlap_duration (sec 9) (sec 10) (example_turns ! 2) = dzero \<and>
   overlap_duration (sec 9) (sec 10) (example_turns ! 3) = dzero \<and>
   speaker (fuse example_segments example_turns ! 0) = ''A'' \<and>
   overlap_duration (sec 2) (sec 7) (example_turns ! 0) = sec 2 \<and>
   dominant_speaker [(''A'', sec 4), (''B'', sec 3)] = ''A''"
  using unknown_exactly_when_no_overlap
    [of example_turns example_segments "[(''A'', sec 4), (''B'', sec 3)]"]
  by (simp add: eval_simps)

text \<open>
  C4. Fusion maps the loop body over the segments: the output has one utterance
  per segment, in the same order, and the \<open>i\<close>-th utterance carries the start and
  the end of the \<open>i\<close>-th segment and its text trimmed. Trimmed means: the
  segment's text is the utterance's text between a prefix and a suffix of
  whitespace only, and the utterance's text, unless empty, neither begins nor ends
  with whitespace.
\<close>

theorem fusion_one_to_one:
  "fuse segments turns = map (fuse_segment turns) segments \<and>
   length (fuse segments turns) = length segments \<and>
   (\<forall>i<length segments.
      utt_start (fuse segments turns ! i) = seg_start (segments ! i) \<and>
      utt_end (fuse segments turns ! i) = seg_end (segments ! i) \<and>
      utt_text (fuse segments turns ! i) = strip (seg_text (segments ! i)) \<and>
      (\<exists>pre suf. seg_text (segments ! i) = pre @ utt_text (fuse segments turns ! i) @ suf \<and>
         (\<forall>c \<in> set pre. py_isspace c) \<and> (\<forall>c \<in> set suf. py_isspace c)) \<and>
      (utt_text (fuse segments turns ! i) \<noteq> [] \<longrightarrow>
         \<not> py_isspace (hd (utt_text (fuse segments turns ! i))) \<and>
         \<not> py_isspace (last (utt_text (fuse segments turns ! i)))))"
proof -
  have "utt_text (fuse segments turns ! i) = strip (seg_text (segments ! i))"
    if "i < length segments" for i
    using that by (simp add: fuse_nth fuse_segment_def)
  then show ?thesis
    using strip_decompose strip_ends
    by (simp add: fuse_map fuse_segment_def)
qed

theorem fusion_one_to_one_witness:
  "length (fuse example_segments example_turns) = 3 \<and>
   utt_start (fuse example_segments example_turns ! 0) = sec 2 \<and>
   utt_end (fuse example_segments example_turns ! 0) = sec 7 \<and>
   seg_text (example_segments ! 0) = [32, 104, 105, 32, 10] \<and>
   utt_text (fuse example_segments example_turns ! 0) = [104, 105] \<and>
   utt_text (fuse example_segments example_turns ! 1) = [] \<and>
   utt_text (fuse example_segments example_turns ! 2) = [111, 32, 107]"
  using fusion_one_to_one [of example_segments example_turns]
  by (simp add: eval_simps)

text \<open>
  C5, as amended. An utterance whose speaker is \<open>UNKNOWN\<close> receives the role
  \<open>Unknown\<close> unless \<open>UNKNOWN\<close> is the teacher label, in which case it receives
  \<open>Teacher\<close>; it never receives a student label.
\<close>

theorem unknown_speaker_role:
  "\<forall>i<length us. speaker (us ! i) = ''UNKNOWN'' \<longrightarrow>
     speaker_role (assign_roles us ! i) =
       Some (if teacher_label us = ''UNKNOWN'' then ''Teacher'' else ''Unknown'')"
  by (simp add: assign_roles_def roles_loop_teacher roles_loop_unknown)

theorem unknown_speaker_role_witness:
  "speaker (example_transcript ! 2) = ''UNKNOWN'' \<and>
   teacher_label example_transcript = ''A'' \<and>
   speaker_role (assign_roles example_transcript ! 2) = Some ''Unknown'' \<and>
   speaker (all_unknown_transcript ! 1) = ''UNKNOWN'' \<and>
   teacher_label all_unknown_transcript = ''UNKNOWN'' \<and>
   speaker_role (assign_roles all_unknown_transcript ! 1) = Some ''Teacher''"
  using unknown_speaker_role [of example_transcript]
    unknown_speaker_role [of all_unknown_transcript]
  by (simp add: eval_simps)

text \<open>
  C5 as stated fails where the unmatched time is the largest total: the utterance
  with speaker \<open>UNKNOWN\<close> is labelled \<open>Teacher\<close>. The same happens to every segment
  when the diarization has no turn at all.
\<close>

theorem unknown_speaker_role_counterexample:
  "speaker (unmatched_transcript ! 1) = ''UNKNOWN'' \<and>
   speaker_talk_time unmatched_transcript = [(''A'', sec 2), (''UNKNOWN'', sec 8), (''B'', sec 1)] \<and>
   teacher_label unmatched_transcript = ''UNKNOWN'' \<and>
   speaker_role (assign_roles unmatched_transcript ! 1) = Some ''Teacher'' \<and>
   speaker_role (assign_roles unmatched_transcript ! 1) \<noteq> Some ''Unknown'' \<and>
   map speaker (process_audio [] silent_segments) = [''UNKNOWN'', ''UNKNOWN''] \<and>
   map speaker_role (process_audio [] silent_segments) = [Some ''Teacher'', Some ''Teacher'']"
  by (simp add: eval_simps)

text \<open>
  C6. Every utterance whose speaker equals the teacher label receives the role
  \<open>Teacher\<close>, whatever the label is. In particular, when \<open>UNKNOWN\<close> occurs and its
  total talk time, as the loop adds it up, is strictly above every other
  speaker's, the teacher label is \<open>UNKNOWN\<close> and the utterances with speaker
  \<open>UNKNOWN\<close> are labelled \<open>Teacher\<close>.
\<close>

theorem teacher_speaker_gets_teacher_role:
  "(\<forall>i<length us. speaker (us ! i) = teacher_label us \<longrightarrow>
      speaker_role (assign_roles us ! i) = Some ''Teacher'') \<and>
   (''UNKNOWN'' \<in> speaker ` set us \<and>
    (\<forall>B \<in> speaker ` set us. B \<noteq> ''UNKNOWN'' \<longrightarrow>
       dlt (total_talk_time us B) (total_talk_time us ''UNKNOWN'')) \<longrightarrow>
      teacher_label us = ''UNKNOWN'' \<and>
      (\<forall>i<length us. speaker (us ! i) = ''UNKNOWN'' \<longrightarrow>
         speaker_role (assign_roles us ! i) = Some ''Teacher''))"
proof (intro conjI impI)
  show general: "\<forall>i<length us. speaker (us ! i) = teacher_label us \<longrightarrow>
      speaker_role (assign_roles us ! i) = Some ''Teacher''"
    by (simp add: assign_roles_def roles_loop_teacher)
  assume dominates: "''UNKNOWN'' \<in> speaker ` set us \<and>
    (\<forall>B \<in> speaker ` set us. B \<noteq> ''UNKNOWN'' \<longrightarrow>
       dlt (total_talk_time us B) (total_talk_time us ''UNKNOWN''))"
  show label: "teacher_label us = ''UNKNOWN''"
    by (rule teacher_label_strict) (use dominates in blast)+
  show "\<forall>i<length us. speaker (us ! i) = ''UNKNOWN'' \<longrightarrow>
      speaker_role (assign_roles us ! i) = Some ''Teacher''"
    using general unfolding label .
qed

theorem teacher_speaker_gets_teacher_role_witness:
  "total_talk_time unmatched_transcript ''A'' = sec 2 \<and>
   total_talk_time unmatched_transcript ''B'' = sec 1 \<and>
   total_talk_time unmatched_transcript ''UNKNOWN'' = sec 8 \<and>
   teacher_label unmatched_transcript = ''UNKNOWN'' \<and>
   speaker (unmatched_transcript ! 1) = ''UNKNOWN'' \<and>
   speaker_role (assign_roles unmatched_transcript ! 1) = Some ''Teacher'' \<and>
   total_talk_time (tie_transcript ''UNKNOWN'') ''A'' = d003 \<and>
   total_talk_time (tie_transcript ''UNKNOWN'') ''UNKNOWN'' = d003 \<and>
   teacher_label (tie_transcript ''UNKNOWN'') = ''A'' \<and>
   map speaker_role (assign_roles (tie_transcript ''UNKNOWN'')) =
     [Some ''Teacher'', Some ''Unknown'', Some ''Teacher'']"
  using teacher_speaker_gets_teacher_role [of unmatched_transcript]
    teacher_speaker_gets_teacher_role [of "tie_transcript ''UNKNOWN''"]
  by (simp add: eval_simps)

text \<open>
  C7. Let the students be the speakers that are neither the teacher label nor
  \<open>UNKNOWN\<close>, listed without repetition in order of first appearance. An utterance
  of the \<open>n\<close>-th student (from 0) is labelled \<open>Student (n + 1)\<close>, at its first
  and at every later appearance. So the first student met is \<open>Student 1\<close>, equal
  speakers have equal labels, and different students have different labels.
\<close>

theorem student_numbering:
  "student_order us =
     first_seen (filter (\<lambda>s. s \<noteq> teacher_label us \<and> s \<noteq> ''UNKNOWN'') (map speaker us)) \<and>
   distinct (student_order us) \<and>
   set (student_order us) =
     {s \<in> speaker ` set us. s \<noteq> teacher_label us \<and> s \<noteq> ''UNKNOWN''} \<and>
   (\<forall>i<length us. speaker (us ! i) \<noteq> teacher_label us \<and> speaker (us ! i) \<noteq> ''UNKNOWN'' \<longrightarrow>
      (\<exists>n<length (student_order us). student_order us ! n = speaker (us ! i) \<and>
         speaker_role (assign_roles us ! i) = Some (''Student '' @ py_str (int n + 1)))) \<and>
   (\<forall>i<length us. speaker (us ! i) \<noteq> teacher_label us \<and> speaker (us ! i) \<noteq> ''UNKNOWN'' \<and>
      (\<forall>j<i. speaker (us ! j) = teacher_label us \<or> speaker (us ! j) = ''UNKNOWN'') \<longrightarrow>
      speaker_role (assign_roles us ! i) = Some ''Student 1'') \<and>
   (\<forall>i<length us. \<forall>j<length us. speaker (us ! i) = speaker (us ! j) \<longrightarrow>
      speaker_role (assign_roles us ! i) = speaker_role (assign_roles us ! j)) \<and>
   (\<forall>i<length us. \<forall>j<length us.
      speaker (us ! i) \<noteq> teacher_label us \<and> speaker (us ! i) \<noteq> ''UNKNOWN'' \<and>
      speaker (us ! j) \<noteq> teacher_label us \<and> speaker (us ! j) \<noteq> ''UNKNOWN'' \<and>
      speaker (us ! i) \<noteq> speaker (us ! j) \<longrightarrow>
      speaker_role (assign_roles us ! i) \<noteq> speaker_role (assign_roles us ! j))"
proof (intro conjI allI impI)
  show "student_order us =
     first_seen (filter (\<lambda>s. s \<noteq> teacher_label us \<and> s \<noteq> ''UNKNOWN'') (map speaker us))"
    by (rule student_order_def)
  show "distinct (student_order us)" by (rule student_order_distinct)
  show "set (student_order us) =
     {s \<in> speaker ` set us. s \<noteq> teacher_label us \<and> s \<noteq> ''UNKNOWN''}"
    by (rule student_order_set)
next
  fix i assume "i < length us"
    "speaker (us ! i) \<noteq> teacher_label us \<and> speaker (us ! i) \<noteq> ''UNKNOWN''"
  then show "\<exists>n<length (student_order us). student_order us ! n = speaker (us ! i) \<and>
         speaker_role (assign_roles us ! i) = Some (''Student '' @ py_str (int n + 1))"
    by (intro assign_roles_student) simp_all
next
  fix i assume "i < length us"
    "speaker (us ! i) \<noteq> teacher_label us \<and> speaker (us ! i) \<noteq> ''UNKNOWN'' \<and>
      (\<forall>j<i. speaker (us ! j) = teacher_label us \<or> speaker (us ! j) = ''UNKNOWN'')"
  then show "speaker_role (assign_roles us ! i) = Some ''Student 1''"
    by (intro assign_roles_first_student) simp_all
next
  fix i j assume "i < length us" "j < length us" "speaker (us ! i) = speaker (us ! j)"
  then show "speaker_role (assign_roles us ! i) = speaker_role (assign_roles us ! j)"
    by (rule assign_roles_same_speaker)
next
  fix i j assume "i < length us" "j < length us"
    "speaker (us ! i) \<noteq> teacher_label us \<and> speaker (us ! i) \<noteq> ''UNKNOWN'' \<and>
      speaker (us ! j) \<noteq> teacher_label us \<and> speaker (us ! j) \<noteq> ''UNKNOWN'' \<and>
      speaker (us ! i) \<noteq> speaker (us ! j)"
  then show "speaker_role (assign_roles us ! i) \<noteq> speaker_role (assign_roles us ! j)"
    by (intro assign_roles_distinct_students) simp_all
qed

theorem student_numbering_witness:
  "teacher_label example_transcript = ''A'' \<and>
   map speaker example_transcript = [''A'', ''B'', ''UNKNOWN'', ''C'', ''B''] \<and>
   student_order example_transcript = [''B'', ''C''] \<and>
   map speaker_role (assign_roles example_transcript) =
     [Some ''Teacher'', Some ''Student 1'', Some ''Unknown'', Some ''Student 2'', Some ''Student 1''] \<and>
   ''Student '' @ py_str 12 = ''Student 12''"
  using student_numbering [of example_transcript]
  by (simp add: eval_simps)

text \<open>
  C8. Role assignment is idempotent: assigning roles to a transcript that already
  carries the roles of a first run (same start, end, text and speaker) returns the
  very same list, hence the same \<open>speaker_role\<close> at every position.
\<close>

theorem role_assignment_idempotent:
  "assign_roles (assign_roles us) = assign_roles us"
  by (simp add: assign_roles_def teacher_label_def speaker_talk_time_def
      talk_time_loop_roles roles_loop_twice)

text \<open>
  C9. Role assignment only augments: the output has as many elements as the input,
  and its \<open>i\<close>-th element is the \<open>i\<close>-th input with \<open>speaker_role\<close> set to some label
  and nothing else changed; in particular start, end, text and speaker are kept.
\<close>

theorem role_assignment_frame:
  "length (assign_roles us) = length us \<and>
   (\<forall>i<length us.
      utt_start (assign_roles us ! i) = utt_start (us ! i) \<and>
      utt_end (assign_roles us ! i) = utt_end (us ! i) \<and>
      utt_text (assign_roles us ! i) = utt_text (us ! i) \<and>
      speaker (assign_roles us ! i) = speaker (us ! i) \<and>
      (\<exists>r. assign_roles us ! i = (us ! i)\<lparr>speaker_role := Some r\<rparr>))"
proof -
  have "\<And>i. i < length us \<Longrightarrow> \<exists>r. assign_roles us ! i = (us ! i)\<lparr>speaker_role := Some r\<rparr>"
    unfolding assign_roles_def by (rule roles_loop_frame)
  then show ?thesis
    by (fastforce simp: assign_roles_def roles_loop_length)
qed

theorem role_assignment_frame_witness:
  "length (assign_roles example_transcript) = 5 \<and>
   utt_start (assign_roles example_transcript ! 3) = sec 8 \<and>
   utt_end (assign_roles example_transcript ! 3) = sec 9 \<and>
   utt_text (assign_roles example_transcript ! 3) = [111, 107] \<and>
   speaker (assign_roles example_transcript ! 3) = ''C'' \<and>
   speaker_role (assign_roles example_transcript ! 3) = Some ''Student 2''"
  using role_assignment_frame [of example_transcript]
  by (simp add: eval_simps)

text \<open>
  C10. On a non-empty transcript the teacher label is the speaker of some
  utterance, and that utterance is labelled \<open>Teacher\<close>: a non-empty output always
  contains the role \<open>Teacher\<close>, also when every speaker is \<open>UNKNOWN\<close>.
\<close>

theorem teacher_always_present:
  "us \<noteq> [] \<Longrightarrow>
   teacher_label us \<in> speaker ` set us \<and>
   (\<exists>i<length us. speaker (us ! i) = teacher_label us \<and>
      speaker_role (assign_roles us ! i) = Some ''Teacher'')"
proof -
  assume "us \<noteq> []"
  then have in_us: "teacher_label us \<in> speaker ` set us" by (rule teacher_label_in)
  then obtain i where "i < length us" "speaker (us ! i) = teacher_label us"
    by (auto simp: in_set_conv_nth)
  moreover from this have "speaker_role (assign_roles us ! i) = Some ''Teacher''"
    by (simp add: assign_roles_def roles_loop_teacher)
  ultimately show ?thesis using in_us by blast
qed

theorem teacher_always_present_witness:
  "all_unknown_transcript \<noteq> [] \<and>
   fuse silent_segments [] = all_unknown_transcript \<and>
   teacher_label all_unknown_transcript = ''UNKNOWN'' \<and>
   map speaker_role (assign_roles all_unknown_transcript) = [Some ''Teacher'', Some ''Teacher'']"
  using teacher_always_present [of all_unknown_transcript]
  by (simp add: eval_simps)

end

